theory Spec2Isabelle
  imports Main "HOL-Library.Word"
begin

section \<open>Faults\<close>

text \<open>
  The source guards its contracts with \<^verbatim>\<open>Q_ASSERT\<close>, and the Qt containers it uses
  assert their own preconditions (a bit index inside the array, a non-empty stack on
  \<^verbatim>\<open>pop\<close>). The model follows a build in which these assertions are active: a failed
  assertion ends the operation with a fault, and every operation that can fail returns
  \<open>fault + result\<close>. A write of character cells outside the window's buffer, which
  no assertion of the source catches, is a fault as well.
\<close>

datatype fault =
    AssertFailed        \<comment> \<open>a \<^verbatim>\<open>Q_ASSERT\<close> written in ScreenWindow.cpp\<close>
  | BitIndexRange       \<comment> \<open>\<^verbatim>\<open>QBitArray::testBit/setBit\<close> outside \<open>0 .. size - 1\<close>\<close>
  | PopEmptyStack       \<comment> \<open>\<^verbatim>\<open>QStack::pop\<close> on an empty stack\<close>
  | BufferOverrun       \<comment> \<open>a write outside the character buffer of the window\<close>

definition bindF :: "fault + 'a \<Rightarrow> ('a \<Rightarrow> fault + 'b) \<Rightarrow> fault + 'b" where
  "bindF m k = (case m of Inl e \<Rightarrow> Inl e | Inr x \<Rightarrow> k x)"

definition q_assert :: "bool \<Rightarrow> fault + unit" where
  "q_assert c = (if c then Inr () else Inl AssertFailed)"

section \<open>QBitArray and the helpers of QtGlobal\<close>

text \<open>
  A \<^verbatim>\<open>QBitArray\<close> is a list of booleans. \<^verbatim>\<open>resize\<close> keeps the leading bits and
  appends cleared bits; \<^verbatim>\<open>fill(v)\<close> sets every bit and keeps the size;
  \<^verbatim>\<open>fill(v, size)\<close> resizes first and then sets every bit; \<^verbatim>\<open>count(true)\<close> counts
  the set bits and \<^verbatim>\<open>count()\<close> is the size.
\<close>

definition testBit :: "bool list \<Rightarrow> int \<Rightarrow> fault + bool" where
  "testBit b i = (if 0 \<le> i \<and> i < int (length b) then Inr (b ! nat i) else Inl BitIndexRange)"

definition setBit :: "bool list \<Rightarrow> int \<Rightarrow> bool \<Rightarrow> fault + bool list" where
  "setBit b i v = (if 0 \<le> i \<and> i < int (length b) then Inr (b[nat i := v]) else Inl BitIndexRange)"

definition resize :: "nat \<Rightarrow> bool list \<Rightarrow> bool list" where
  "resize n b = take n b @ replicate (n - length b) False"

definition fill :: "bool \<Rightarrow> bool list \<Rightarrow> bool list" where
  "fill v b = replicate (length b) v"

definition fillSize :: "bool \<Rightarrow> nat \<Rightarrow> bool list \<Rightarrow> bool list" where
  "fillSize v n b = fill v (resize n b)"

definition countTrue :: "bool list \<Rightarrow> int" where
  "countTrue b = int (length (filter (\<lambda>x. x) b))"

text \<open>
  \<^verbatim>\<open>qBound(min, val, max)\<close> is \<^verbatim>\<open>qMax(min, qMin(max, val))\<close>: with \<open>max < min\<close> it
  returns \<open>min\<close>.
\<close>

definition qBound :: "int \<Rightarrow> int \<Rightarrow> int \<Rightarrow> int" where
  "qBound lo val hi = max lo (min hi val)"

section \<open>Folds\<close>

text \<open>
  The class \<^verbatim>\<open>Folds\<close> of ScreenWindow.h: one bit per buffer line for "a fold starts
  here", "a fold ends here", "the fold starting here is expanded" and "the line is
  visible", the flag that folding is in use and the cached number of visible lines.
\<close>

record Folds =
  m_enabled :: bool
  m_foldStarts :: "bool list"
  m_foldEnds :: "bool list"
  m_expanded :: "bool list"
  m_filteredLines :: "bool list"
  m_visibleLines :: int

datatype FoldType = FoldNone | FoldStart | FoldEnd

definition foldType :: "Folds \<Rightarrow> int \<Rightarrow> fault + FoldType" where
  "foldType f line =
     (if \<not> m_enabled f then Inr FoldNone
      else bindF (testBit (m_foldStarts f) line) (\<lambda>s.
        if s then Inr FoldStart
        else bindF (testBit (m_foldEnds f) line) (\<lambda>e.
          if e then Inr FoldEnd else Inr FoldNone)))"

definition isOpen :: "Folds \<Rightarrow> int \<Rightarrow> fault + bool" where
  "isOpen f line =
     bindF (foldType f line) (\<lambda>t.
     bindF (q_assert (t = FoldStart)) (\<lambda>_.
     testBit (m_expanded f) line))"

definition setOpen :: "int \<Rightarrow> bool \<Rightarrow> Folds \<Rightarrow> fault + Folds" where
  "setOpen line opn f =
     bindF (foldType f line) (\<lambda>t.
     bindF (q_assert (t = FoldStart)) (\<lambda>_.
     bindF (setBit (m_expanded f) line opn) (\<lambda>ex.
     Inr (f\<lparr>m_expanded := ex\<rparr>))))"

text \<open>
  \<^verbatim>\<open>setFold(startLine, endLine, fold)\<close>: the third parameter is called \<^verbatim>\<open>open\<close> in the
  header and \<^verbatim>\<open>fold\<close> in the body (\<open>fold'\<close> here), where it is the value written to the two boundary
  bits. The expanded bit of the start line is always cleared.
\<close>

definition setFold :: "int \<Rightarrow> int \<Rightarrow> bool \<Rightarrow> Folds \<Rightarrow> fault + Folds" where
  "setFold startLine endLine fold' f =
     bindF (q_assert (startLine \<le> endLine)) (\<lambda>_.
     let f1 = f\<lparr>m_enabled := True\<rparr> in
     bindF (testBit (m_foldStarts f1) startLine) (\<lambda>s.
     bindF (testBit (m_foldEnds f1) endLine) (\<lambda>e.
     bindF (q_assert (s = e)) (\<lambda>_.
     bindF (setBit (m_foldStarts f1) startLine fold') (\<lambda>starts.
     bindF (setBit (m_foldEnds f1) endLine fold') (\<lambda>ends.
     bindF (setBit (m_expanded f1) startLine False) (\<lambda>ex.
     Inr (f1\<lparr>m_foldStarts := starts, m_foldEnds := ends, m_expanded := ex\<rparr>))))))))"

definition Folds_removeAll :: "Folds \<Rightarrow> Folds" where
  "Folds_removeAll f =
     f\<lparr>m_foldStarts := fill False (m_foldStarts f),
       m_foldEnds := fill False (m_foldEnds f),
       m_filteredLines := fill True (m_filteredLines f),
       m_expanded := fill False (m_expanded f),
       m_enabled := False\<rparr>"

text \<open>
  \<^verbatim>\<open>setLineCount(size)\<close>: its argument (\<open>n\<close> here) is a number of lines (the
  callers pass \<^verbatim>\<open>lineCount()\<close>), a natural number in the model.
\<close>

definition setLineCount :: "nat \<Rightarrow> Folds \<Rightarrow> Folds" where
  "setLineCount n f =
     (if length (m_foldStarts f) \<noteq> n
      then f\<lparr>m_foldStarts := resize n (m_foldStarts f),
             m_foldEnds := resize n (m_foldEnds f),
             m_filteredLines := fillSize True n (m_filteredLines f),
             m_expanded := resize n (m_expanded f)\<rparr>
      else f)"

definition isLineVisible :: "Folds \<Rightarrow> int \<Rightarrow> fault + bool" where
  "isLineVisible f line = testBit (m_filteredLines f) line"

definition Folds_visibleLineCount :: "Folds \<Rightarrow> int" where
  "Folds_visibleLineCount f =
     (if m_enabled f then m_visibleLines f else int (length (m_filteredLines f)))"

definition Folds_count :: "Folds \<Rightarrow> int" where
  "Folds_count f = (if m_enabled f then countTrue (m_foldStarts f) else 0)"

text \<open>
  The body of the loop of \<^verbatim>\<open>updateVisibleLines\<close> for line \<open>i\<close>. The loop state is
  the stack \<^verbatim>\<open>foldStack\<close> (top first), the flag \<^verbatim>\<open>stackHasClosedFold\<close> and the
  visibility bitmap.
\<close>

type_synonym scanState = "bool list \<times> bool \<times> bool list"

definition visStep :: "Folds \<Rightarrow> nat \<Rightarrow> scanState \<Rightarrow> fault + scanState" where
  "visStep f i st =
     (case st of (foldStack, stackHasClosedFold, filtered) \<Rightarrow>
        bindF (setBit filtered (int i) (\<not> stackHasClosedFold)) (\<lambda>filtered1.
        bindF (testBit (m_foldStarts f) (int i)) (\<lambda>isStart.
        bindF (if isStart
               then bindF (testBit (m_expanded f) (int i)) (\<lambda>opn.
                      Inr (opn # foldStack, if \<not> opn then True else stackHasClosedFold))
               else Inr (foldStack, stackHasClosedFold)) (\<lambda>(stack1, closed1).
        bindF (testBit (m_foldEnds f) (int i)) (\<lambda>isEnd.
          if isEnd
          then (case stack1 of
                  [] \<Rightarrow> Inl PopEmptyStack
                | _ # stack2 \<Rightarrow> Inr (stack2, False \<in> set stack2, filtered1))
          else Inr (stack1, closed1, filtered1))))))"

lemma bindF_cong [fundef_cong]:
  "m = m' \<Longrightarrow> (\<And>x. m' = Inr x \<Longrightarrow> k x = k' x) \<Longrightarrow> bindF m k = bindF m' k'"
  by (auto simp: bindF_def split: sum.splits)

function visLoop :: "Folds \<Rightarrow> nat \<Rightarrow> nat \<Rightarrow> scanState \<Rightarrow> fault + scanState" where
  "visLoop f count i st =
     (if i < count then bindF (visStep f i st) (visLoop f count (Suc i)) else Inr st)"
  by pat_completeness auto
termination
  by (relation "measure (\<lambda>(f, count, i, st). count - i)") auto

declare visLoop.simps [simp del]

definition updateVisibleLines :: "Folds \<Rightarrow> fault + Folds" where
  "updateVisibleLines f =
     (let count = length (m_filteredLines f);
          filtered0 = fill True (m_filteredLines f)
      in bindF (visLoop f count 0 ([], False, filtered0)) (\<lambda>(foldStack, closed, filtered).
         bindF (q_assert (foldStack = [])) (\<lambda>_.
         Inr (f\<lparr>m_filteredLines := filtered, m_visibleLines := countTrue filtered\<rparr>))))"

section \<open>The screen\<close>

text \<open>
  The class \<^verbatim>\<open>Screen\<close> and the decoder of a line's characters are not part of
  ScreenWindow.cpp. The window reads from the screen the number of history lines
  (\<^verbatim>\<open>getHistLines\<close>), the number of lines of the live screen (\<^verbatim>\<open>getLines\<close>), the
  number of columns, the cursor row, and, for the filter, the text that
  \<^verbatim>\<open>getImage\<close> followed by \<^verbatim>\<open>PlainTextDecoder::decode\<close> yields for a line; these
  are the fields of the record.
\<close>

record Screen =
  histLines :: int
  screenLines :: int
  screenColumns :: int
  cursorY :: int
  lineText :: "int \<Rightarrow> string"

section \<open>ScreenWindow\<close>

text \<open>
  The fields of \<^verbatim>\<open>ScreenWindow\<close> that the operations below read or write. The
  character buffer \<^verbatim>\<open>_windowBuffer\<close> holds \<^verbatim>\<open>windowLines() * windowColumns()\<close> cells,
  one row of cells per window line; the model keeps it row by row: a row holds the
  cells of a buffer line (\<open>Some i\<close> for line \<open>i\<close>) or default characters (\<open>None\<close>).
  The null pointer is \<open>None\<close>. The C++ \<^verbatim>\<open>int\<close> values that are line numbers and line
  counts are integers in the model. The scroll counter accumulates differences without
  a bound, so it is a 32-bit word: its additions wrap around at the 32-bit limits, and
  \<open>sint\<close> reads it as the signed value the C++ \<^verbatim>\<open>int\<close> holds.
\<close>

type_synonym imageRow = "int option"

record ScreenWindow =
  m_screen :: Screen
  m_windowBuffer :: "imageRow list option"
  m_windowBufferSize :: int
  m_folds :: Folds
  m_filter :: string
  m_bufferNeedsUpdate :: bool
  m_filterNeedsUpdate :: bool
  m_windowLines :: int
  m_currentLine :: int
  m_trackOutput :: bool
  m_scrollCount :: "32 word"

definition windowLines :: "ScreenWindow \<Rightarrow> int" where
  "windowLines w = m_windowLines w"


definition lineCount :: "ScreenWindow \<Rightarrow> int" where
  "lineCount w = histLines (m_screen w) + screenLines (m_screen w)"

definition visibleLineCount :: "ScreenWindow \<Rightarrow> int" where
  "visibleLineCount w =
     (if Folds_count (m_folds w) > 0 then Folds_visibleLineCount (m_folds w)
      else lineCount w)"

definition currentLine :: "ScreenWindow \<Rightarrow> int" where
  "currentLine w = qBound 0 (m_currentLine w) (visibleLineCount w - windowLines w)"


text \<open>
  \<^verbatim>\<open>scrollTo(line)\<close>. The signal \<^verbatim>\<open>scrolled(_currentLine)\<close> it emits carries the new
  value of the field and is not part of the state. \<^verbatim>\<open>_scrollCount += delta\<close> is an
  addition of 32-bit values, which wraps around.
\<close>

definition scrollTo :: "int \<Rightarrow> ScreenWindow \<Rightarrow> ScreenWindow" where
  "scrollTo line w =
     (let maxCurrentLineNumber = lineCount w - windowLines w;
          line1 = qBound 0 line maxCurrentLineNumber;
          delta = line1 - m_currentLine w
      in w\<lparr>m_currentLine := line1,
           m_scrollCount := m_scrollCount w + word_of_int delta,
           m_bufferNeedsUpdate := True\<rparr>)"


subsection \<open>The filter\<close>

text \<open>\<^verbatim>\<open>QString::contains\<close>: the pattern occurs somewhere in the text.\<close>

fun startsWith :: "string \<Rightarrow> string \<Rightarrow> bool" where
  "startsWith txt [] = True"
| "startsWith [] (p # ps) = False"
| "startsWith (c # cs) (p # ps) = (c = p \<and> startsWith cs ps)"

fun contains :: "string \<Rightarrow> string \<Rightarrow> bool" where
  "contains [] pat = (pat = [])"
| "contains (c # cs) pat = (startsWith (c # cs) pat \<or> contains cs pat)"

text \<open>
  The body of the loop of \<^verbatim>\<open>createFilterFolds\<close> for line \<open>i\<close>; the loop state is
  the fold table and the local \<^verbatim>\<open>foldStart\<close>.
\<close>

definition filterStep :: "Screen \<Rightarrow> string \<Rightarrow> int \<Rightarrow> int \<Rightarrow> Folds \<times> int \<Rightarrow> fault + Folds \<times> int" where
  "filterStep scr flt count i st =
     (case st of (fs, foldStart) \<Rightarrow>
        let lastLine = count - 1;
            firstLine = 0;
            match = contains (lineText scr i) flt
        in if match \<or> i = firstLine \<or> i = lastLine
           then bindF (if i \<noteq> firstLine then setFold foldStart (i - 1) True fs else Inr fs)
                  (\<lambda>fs1. Inr (fs1, i))
           else Inr (fs, foldStart))"

function filterLoop :: "Screen \<Rightarrow> string \<Rightarrow> int \<Rightarrow> int \<Rightarrow> Folds \<times> int \<Rightarrow> fault + Folds \<times> int" where
  "filterLoop scr flt count i st =
     (if i < count then bindF (filterStep scr flt count i st) (filterLoop scr flt count (i + 1))
      else Inr st)"
  by pat_completeness auto
termination
  by (relation "measure (\<lambda>(scr, flt, count, i, st). nat (count - i))") auto

declare filterLoop.simps [simp del]

definition createFilterFolds :: "string \<Rightarrow> ScreenWindow \<Rightarrow> fault + ScreenWindow" where
  "createFilterFolds flt w =
     (let w1 = w\<lparr>m_filterNeedsUpdate := False\<rparr>;
          fs1 = Folds_removeAll (setLineCount (nat (lineCount w)) (m_folds w))
      in if flt = [] then Inr (w1\<lparr>m_folds := fs1\<rparr>)
         else bindF (filterLoop (m_screen w) flt (lineCount w) 0 (fs1, - 1))
                (\<lambda>(fs2, foldStart). Inr (w1\<lparr>m_folds := fs2\<rparr>)))"

subsection \<open>The filtered image\<close>






subsection \<open>The image of the window\<close>




section \<open>Fold configurations\<close>

text \<open>
  A fold is a closed range of buffer lines with its expanded flag. A list of folds is
  properly nested over \<open>n\<close> lines when every fold lies inside the buffer and any two
  folds are the same fold, disjoint, or one lies inside the other without sharing a
  boundary line (a line carries one start bit and one end bit, so two different folds
  cannot start, or end, on the same line). A fold table represents the list when its
  start and end bits are exactly the boundary lines of the folds and the expanded bit of
  every start line is the flag of its fold.
\<close>

text \<open>The four bit arrays of a fold table have \<open>n\<close> bits each.\<close>

definition sized :: "nat \<Rightarrow> Folds \<Rightarrow> bool" where
  "sized n f =
     (length (m_foldStarts f) = n \<and> length (m_foldEnds f) = n
      \<and> length (m_expanded f) = n \<and> length (m_filteredLines f) = n)"

datatype foldRange = FoldRange (firstLine: nat) (lastLine: nat) (isExpanded: bool)

definition nestedOrApart :: "foldRange \<Rightarrow> foldRange \<Rightarrow> bool" where
  "nestedOrApart A B =
     (A = B \<or> lastLine A < firstLine B \<or> lastLine B < firstLine A
      \<or> (firstLine A < firstLine B \<and> lastLine B < lastLine A)
      \<or> (firstLine B < firstLine A \<and> lastLine A < lastLine B))"

definition properlyNested :: "nat \<Rightarrow> foldRange list \<Rightarrow> bool" where
  "properlyNested n F =
     (list_all (\<lambda>A. firstLine A \<le> lastLine A \<and> lastLine A < n) F
      \<and> list_all (\<lambda>A. list_all (nestedOrApart A) F) F)"

definition represents :: "nat \<Rightarrow> foldRange list \<Rightarrow> Folds \<Rightarrow> bool" where
  "represents n F f =
     (m_foldStarts f = map (\<lambda>i. list_ex (\<lambda>A. firstLine A = i) F) [0..<n]
      \<and> m_foldEnds f = map (\<lambda>i. list_ex (\<lambda>A. lastLine A = i) F) [0..<n]
      \<and> length (m_expanded f) = n
      \<and> length (m_filteredLines f) = n
      \<and> list_all (\<lambda>A. m_expanded f ! firstLine A = isExpanded A) F)"

text \<open>
  The invariant of the loop of \<^verbatim>\<open>updateVisibleLines\<close> before line \<open>i\<close>, for a table
  that represents the folds \<open>F\<close>: the stack holds the expanded flags of the folds that
  began before line \<open>i\<close> and have not ended before it, innermost first; the flag says
  whether one of them is collapsed; and the bitmap is settled for the lines before \<open>i\<close>.
\<close>

definition hiddenAt :: "foldRange list \<Rightarrow> nat \<Rightarrow> bool" where
  "hiddenAt F j = list_ex (\<lambda>A. \<not> isExpanded A \<and> firstLine A < j \<and> j \<le> lastLine A) F"

definition scanInv :: "nat \<Rightarrow> foldRange list \<Rightarrow> nat \<Rightarrow> scanState \<Rightarrow> bool" where
  "scanInv n F i st =
     (case st of (foldStack, stackHasClosedFold, filtered) \<Rightarrow>
        length filtered = n
        \<and> stackHasClosedFold = (False \<in> set foldStack)
        \<and> (\<exists>fs. foldStack = map isExpanded fs
                \<and> sorted_wrt (\<lambda>A B. firstLine B < firstLine A) fs
                \<and> set fs = {A \<in> set F. firstLine A < i \<and> i \<le> lastLine A})
        \<and> (\<forall>j<i. filtered ! j = (\<not> hiddenAt F j)))"

text \<open>
  The start and end markers of a table are balanced when they hold equally many bits
  and, before every line, at least as many folds have started as have ended.
\<close>

definition markersBalanced :: "Folds \<Rightarrow> bool" where
  "markersBalanced f =
     (countTrue (m_foldEnds f) = countTrue (m_foldStarts f)
      \<and> (\<forall>i. countTrue (take i (m_foldEnds f)) \<le> countTrue (take i (m_foldStarts f))))"

text \<open>A sequence of \<^verbatim>\<open>setFold\<close> calls, stopping at the first fault.\<close>

fun setFolds :: "(int \<times> int \<times> bool) list \<Rightarrow> Folds \<Rightarrow> fault + Folds" where
  "setFolds [] f = Inr f"
| "setFolds ((s, e, b) # cs) f = bindF (setFold s e b f) (setFolds cs)"

text \<open>
  The ranges of a sequence of calls are nested over \<open>n\<close> lines when every range lies
  inside the buffer and any two ranges are identical, disjoint, or one lies inside the
  other without sharing a boundary line.
\<close>

definition callRange :: "int \<times> int \<times> bool \<Rightarrow> int \<times> int" where
  "callRange c = (fst c, fst (snd c))"

definition rangesCompatible :: "int \<times> int \<Rightarrow> int \<times> int \<Rightarrow> bool" where
  "rangesCompatible r r' =
     (r = r' \<or> snd r < fst r' \<or> snd r' < fst r
      \<or> (fst r < fst r' \<and> snd r' < snd r)
      \<or> (fst r' < fst r \<and> snd r < snd r'))"

definition nestedCalls :: "nat \<Rightarrow> (int \<times> int \<times> bool) list \<Rightarrow> bool" where
  "nestedCalls n calls =
     (list_all (\<lambda>c. 0 \<le> fst (callRange c) \<and> fst (callRange c) \<le> snd (callRange c)
                    \<and> snd (callRange c) < int n) calls
      \<and> list_all (\<lambda>c. list_all (\<lambda>d. rangesCompatible (callRange c) (callRange d)) calls) calls)"

text \<open>
  The weaker condition that only asks any two ranges to be identical, disjoint, or one
  inside the other: here two different ranges may share a boundary line.
\<close>

definition rangesNestedOrDisjoint :: "int \<times> int \<Rightarrow> int \<times> int \<Rightarrow> bool" where
  "rangesNestedOrDisjoint r r' =
     (r = r' \<or> snd r < fst r' \<or> snd r' < fst r
      \<or> (fst r \<le> fst r' \<and> snd r' \<le> snd r)
      \<or> (fst r' \<le> fst r \<and> snd r \<le> snd r'))"

definition looselyNestedCalls :: "nat \<Rightarrow> (int \<times> int \<times> bool) list \<Rightarrow> bool" where
  "looselyNestedCalls n calls =
     (list_all (\<lambda>c. 0 \<le> fst (callRange c) \<and> fst (callRange c) \<le> snd (callRange c)
                    \<and> snd (callRange c) < int n) calls
      \<and> list_all (\<lambda>c. list_all (\<lambda>d. rangesNestedOrDisjoint (callRange c) (callRange d)) calls)
           calls)"

text \<open>
  The fold tables the class can be in: a new object holds four empty bit arrays (its
  flag and its cached count are not initialised), and the public operations change it.
\<close>

inductive reachable :: "Folds \<Rightarrow> bool" where
  initial: "reachable \<lparr>m_enabled = en, m_foldStarts = [], m_foldEnds = [], m_expanded = [],
                       m_filteredLines = [], m_visibleLines = v\<rparr>"
| by_setLineCount: "reachable f \<Longrightarrow> reachable (setLineCount n f)"
| by_removeAll: "reachable f \<Longrightarrow> reachable (Folds_removeAll f)"
| by_setFold: "reachable f \<Longrightarrow> setFold s e b f = Inr f' \<Longrightarrow> reachable f'"
| by_setOpen: "reachable f \<Longrightarrow> setOpen l b f = Inr f' \<Longrightarrow> reachable f'"
| by_updateVisibleLines: "reachable f \<Longrightarrow> updateVisibleLines f = Inr f' \<Longrightarrow> reachable f'"

text \<open>
  Every fold table the class can be in is consistent: its four bit arrays have the same
  size, and while folding is disabled no start bit and no end bit is set
  (\<^verbatim>\<open>removeAll\<close>, the only operation that disables folding, clears them all).
\<close>

definition consistent :: "Folds \<Rightarrow> bool" where
  "consistent f =
     (sized (length (m_foldStarts f)) f
      \<and> (m_enabled f \<or> (True \<notin> set (m_foldStarts f) \<and> True \<notin> set (m_foldEnds f))))"

section \<open>Example states\<close>

text \<open>
  A fold table as a new object holds it, a screen with 100 lines of history and 24
  lines of 80 columns whose lines are empty, and a window onto that screen with a given
  height and stored top line.
\<close>

definition newFolds :: "bool \<Rightarrow> int \<Rightarrow> Folds" where
  "newFolds en v = \<lparr>m_enabled = en, m_foldStarts = [], m_foldEnds = [], m_expanded = [],
                    m_filteredLines = [], m_visibleLines = v\<rparr>"

definition exampleScreen :: "int \<Rightarrow> int \<Rightarrow> Screen" where
  "exampleScreen hist scrn =
     \<lparr>histLines = hist, screenLines = scrn, screenColumns = 80, cursorY = 0,
      lineText = (\<lambda>i. [])\<rparr>"

definition exampleWindow :: "Screen \<Rightarrow> int \<Rightarrow> int \<Rightarrow> ScreenWindow" where
  "exampleWindow scr height topLine =
     \<lparr>m_screen = scr, m_windowBuffer = None, m_windowBufferSize = 0,
      m_folds = newFolds False 0, m_filter = [],
      m_bufferNeedsUpdate = False, m_filterNeedsUpdate = False,
      m_windowLines = height, m_currentLine = topLine, m_trackOutput = True, m_scrollCount = 7\<rparr>"

text \<open>
  A screen of ten lines (six of history, four of the live screen) whose line 5 is the
  only one that contains "foo"; the cursor is on row \<open>cy\<close> of the live screen.
\<close>

definition tenLines :: "int \<Rightarrow> Screen" where
  "tenLines cy = \<lparr>histLines = 6, screenLines = 4, screenColumns = 80, cursorY = cy,
                  lineText = (\<lambda>i. if i = 5 then ''a foo b'' else ''bar'')\<rparr>"

section \<open>Basic facts\<close>

lemma bindF_simps [simp]:
  "bindF (Inl e) k = Inl e"
  "bindF (Inr x) k = k x"
  by (simp_all add: bindF_def)

lemma testBit_simps:
  "0 \<le> i \<Longrightarrow> i < int (length b) \<Longrightarrow> testBit b i = Inr (b ! nat i)"
  "i < 0 \<or> int (length b) \<le> i \<Longrightarrow> testBit b i = Inl BitIndexRange"
  by (auto simp: testBit_def)

lemma setBit_simps:
  "0 \<le> i \<Longrightarrow> i < int (length b) \<Longrightarrow> setBit b i v = Inr (b[nat i := v])"
  "i < 0 \<or> int (length b) \<le> i \<Longrightarrow> setBit b i v = Inl BitIndexRange"
  by (auto simp: setBit_def)

lemma resize_length [simp]: "length (resize n b) = n"
  by (simp add: resize_def)

lemma fill_length [simp]: "length (fill v b) = length b"
  by (simp add: fill_def)

lemma countTrue_replicate_True [simp]: "countTrue (replicate n True) = int n"
  by (simp add: countTrue_def)

lemma visStep_sized:
  assumes "i < length (m_foldStarts f)" "i < length (m_foldEnds f)" "i < length (m_expanded f)"
    "i < length fl"
  shows "visStep f i (stk, c, fl) =
     (let stk1 = (if m_foldStarts f ! i then m_expanded f ! i # stk else stk);
          c1 = (if m_foldStarts f ! i \<and> \<not> m_expanded f ! i then True else c)
      in if m_foldEnds f ! i
         then (case stk1 of [] \<Rightarrow> Inl PopEmptyStack
               | x # stk2 \<Rightarrow> Inr (stk2, False \<in> set stk2, fl[i := \<not> c]))
         else Inr (stk1, c1, fl[i := \<not> c]))"
  using assms by (simp add: visStep_def testBit_simps setBit_simps Let_def)

lemma visStep_length:
  "visStep f i st = Inr st' \<Longrightarrow> length (snd (snd st')) = length (snd (snd st))"
  by (cases st)
    (auto simp: visStep_def testBit_def setBit_def bindF_def
      split: if_splits sum.splits list.splits prod.splits)

lemma visLoop_total:
  assumes "I i st" and "i \<le> n"
    and step: "\<And>j s. i \<le> j \<Longrightarrow> j < n \<Longrightarrow> I j s \<Longrightarrow> \<exists>s'. visStep f j s = Inr s' \<and> I (Suc j) s'"
  shows "\<exists>st'. visLoop f n i st = Inr st' \<and> I n st'"
  using assms(1,2) step
proof (induction "n - i" arbitrary: i st)
  case 0
  then show ?case by (simp add: visLoop.simps)
next
  case (Suc d)
  then have lt: "i < n" by simp
  from Suc.prems(3) [OF _ lt Suc.prems(1)] obtain s' where
    s': "visStep f i st = Inr s'" "I (Suc i) s'" by auto
  have "\<exists>st'. visLoop f n (Suc i) s' = Inr st' \<and> I n st'"
  proof (rule Suc.hyps(1))
    show "d = n - Suc i" using Suc.hyps(2) by simp
    show "I (Suc i) s'" by (rule s')
    show "Suc i \<le> n" using lt by simp
    show "\<And>j s. Suc i \<le> j \<Longrightarrow> j < n \<Longrightarrow> I j s \<Longrightarrow> \<exists>s'. visStep f j s = Inr s' \<and> I (Suc j) s'"
      using Suc.prems(3) by simp
  qed
  then show ?case using lt s' by (simp add: visLoop.simps)
qed

lemma visLoop_partial:
  assumes "visLoop f n i st = Inr st'" and "P st"
    and step: "\<And>j s s'. P s \<Longrightarrow> visStep f j s = Inr s' \<Longrightarrow> P s'"
  shows "P st'"
  using assms(1,2)
proof (induction "n - i" arbitrary: i st)
  case 0
  then show ?case by (simp add: visLoop.simps)
next
  case (Suc d)
  then have lt: "i < n" by simp
  then obtain s where s: "visStep f i st = Inr s" "visLoop f n (Suc i) s = Inr st'"
    using Suc.prems(1) by (cases "visStep f i st") (auto simp: visLoop.simps)
  have "d = n - Suc i" using Suc.hyps(2) by simp
  from Suc.hyps(1) [OF this s(2) step [OF Suc.prems(2) s(1)]] show ?case .
qed

lemma resize_nth: "i < n \<Longrightarrow> resize n b ! i = (if i < length b then b ! i else False)"
  by (simp add: resize_def nth_append)

lemma sized_setLineCount: "sized m f \<Longrightarrow> sized n (setLineCount n f)"
  by (auto simp: sized_def setLineCount_def fillSize_def)

lemma sized_removeAll: "sized n f \<Longrightarrow> sized n (Folds_removeAll f)"
  by (simp add: sized_def Folds_removeAll_def)

lemma setFold_Inr:
  assumes "setFold s e b f = Inr f'"
  shows "0 \<le> s \<and> s \<le> e \<and> s < int (length (m_foldStarts f)) \<and> e < int (length (m_foldEnds f))
         \<and> s < int (length (m_expanded f))
         \<and> m_foldStarts f ! nat s = m_foldEnds f ! nat e
         \<and> f' = f\<lparr>m_enabled := True, m_foldStarts := (m_foldStarts f)[nat s := b],
                   m_foldEnds := (m_foldEnds f)[nat e := b],
                   m_expanded := (m_expanded f)[nat s := False]\<rparr>"
  using assms
  by (auto simp: setFold_def q_assert_def testBit_def setBit_def bindF_def Let_def
      split: if_splits)

lemma setOpen_Inr:
  assumes "setOpen l b f = Inr f'"
  shows "m_enabled f \<and> 0 \<le> l \<and> l < int (length (m_expanded f))
         \<and> f' = f\<lparr>m_expanded := (m_expanded f)[nat l := b]\<rparr>"
  using assms
  by (auto simp: setOpen_def foldType_def q_assert_def testBit_def setBit_def bindF_def
      split: if_splits)

lemma updateVisibleLines_Inr:
  assumes "updateVisibleLines f = Inr f'"
  shows "\<exists>c fl. visLoop f (length (m_filteredLines f)) 0 ([], False, fill True (m_filteredLines f))
                  = Inr ([], c, fl)
              \<and> length fl = length (m_filteredLines f)
              \<and> f' = f\<lparr>m_filteredLines := fl, m_visibleLines := countTrue fl\<rparr>"
proof -
  obtain stk c fl where
    r: "visLoop f (length (m_filteredLines f)) 0 ([], False, fill True (m_filteredLines f))
        = Inr (stk, c, fl)"
    using assms
    by (cases "visLoop f (length (m_filteredLines f)) 0 ([], False, fill True (m_filteredLines f))")
      (auto simp: updateVisibleLines_def Let_def)
  have len: "length (snd (snd (stk, c, fl))) = length (m_filteredLines f)"
    by (rule visLoop_partial [OF r, where P = "\<lambda>s. length (snd (snd s)) = length (m_filteredLines f)"])
      (simp_all add: visStep_length)
  from assms r have "stk = []" "f' = f\<lparr>m_filteredLines := fl, m_visibleLines := countTrue fl\<rparr>"
    by (auto simp: updateVisibleLines_def Let_def q_assert_def split: if_splits)
  with r len show ?thesis by simp
qed

lemma sized_setFold: "setFold s e b f = Inr f' \<Longrightarrow> sized n f \<Longrightarrow> sized n f'"
  by (drule setFold_Inr) (auto simp: sized_def)

lemma sized_setOpen: "setOpen l b f = Inr f' \<Longrightarrow> sized n f \<Longrightarrow> sized n f'"
  by (drule setOpen_Inr) (auto simp: sized_def)

lemma sized_updateVisibleLines: "updateVisibleLines f = Inr f' \<Longrightarrow> sized n f \<Longrightarrow> sized n f'"
  by (drule updateVisibleLines_Inr) (auto simp: sized_def)

lemma resize_no_True: "True \<notin> set b \<Longrightarrow> True \<notin> set (resize n b)"
  by (auto simp: resize_def dest: in_set_takeD)

lemma consistent_setLineCount: "consistent f \<Longrightarrow> consistent (setLineCount n f)"
  unfolding consistent_def
  by (auto simp: setLineCount_def sized_def fillSize_def resize_no_True)

lemma consistent_removeAll: "consistent f \<Longrightarrow> consistent (Folds_removeAll f)"
  unfolding consistent_def by (auto simp: Folds_removeAll_def sized_def fill_def)

lemma consistent_setFold: "setFold s e b f = Inr f' \<Longrightarrow> consistent f \<Longrightarrow> consistent f'"
  by (drule setFold_Inr) (auto simp: consistent_def sized_def)

lemma consistent_setOpen: "setOpen l b f = Inr f' \<Longrightarrow> consistent f \<Longrightarrow> consistent f'"
  by (drule setOpen_Inr) (auto simp: consistent_def sized_def)

lemma consistent_updateVisibleLines:
  "updateVisibleLines f = Inr f' \<Longrightarrow> consistent f \<Longrightarrow> consistent f'"
  by (drule updateVisibleLines_Inr) (auto simp: consistent_def sized_def)

lemma reachable_consistent: "reachable f \<Longrightarrow> consistent f"
proof (induction rule: reachable.induct)
  case (initial en v)
  show ?case by (simp add: consistent_def sized_def)
qed (auto intro: consistent_setLineCount consistent_removeAll consistent_setFold
      consistent_setOpen consistent_updateVisibleLines)

lemma visLoop_no_bits:
  assumes "True \<notin> set (m_foldStarts f)" "True \<notin> set (m_foldEnds f)"
    and "sized n f"
  shows "visLoop f n 0 ([], False, replicate n True) = Inr ([], False, replicate n True)"
proof -
  have "\<exists>st'. visLoop f n 0 ([], False, replicate n True) = Inr st'
            \<and> st' = ([], False, replicate n True)"
  proof (rule visLoop_total [where I = "\<lambda>j s. s = ([], False, replicate n True)"])
    fix j and s :: scanState
    assume j: "j < n" and s: "s = ([], False, replicate n True)"
    have "j < length (m_foldStarts f)" "j < length (m_foldEnds f)"
      using assms(3) j by (simp_all add: sized_def)
    then have "m_foldStarts f ! j \<in> set (m_foldStarts f)" "m_foldEnds f ! j \<in> set (m_foldEnds f)"
      by simp_all
    then have "\<not> m_foldStarts f ! j" "\<not> m_foldEnds f ! j"
      using assms(1,2) by metis+
    then show "\<exists>s'. visStep f j s = Inr s' \<and> s' = ([], False, replicate n True)"
      using assms(3) j s
      by (simp add: visStep_sized sized_def list_update_same_conv)
  qed simp_all
  then show ?thesis by auto
qed

lemma updateVisibleLines_no_bits:
  assumes "True \<notin> set (m_foldStarts f)" "True \<notin> set (m_foldEnds f)" "sized n f"
  shows "updateVisibleLines f
         = Inr (f\<lparr>m_filteredLines := replicate n True, m_visibleLines := int n\<rparr>)"
proof -
  have "length (m_filteredLines f) = n" using assms(3) by (simp add: sized_def)
  then show ?thesis
    using visLoop_no_bits [OF assms]
    by (simp add: updateVisibleLines_def fill_def q_assert_def)
qed

lemma filterLoop_partial:
  assumes "filterLoop scr flt n i st = Inr st'" and "P st"
    and step: "\<And>j s s'. P s \<Longrightarrow> filterStep scr flt n j s = Inr s' \<Longrightarrow> P s'"
  shows "P st'"
  using assms(1,2)
proof (induction "nat (n - i)" arbitrary: i st)
  case 0
  then show ?case by (simp add: filterLoop.simps)
next
  case (Suc d)
  then have lt: "i < n" by simp
  then obtain s where s: "filterStep scr flt n i st = Inr s" "filterLoop scr flt n (i + 1) s = Inr st'"
    using Suc.prems(1) by (cases "filterStep scr flt n i st") (auto simp: filterLoop.simps)
  have "d = nat (n - (i + 1))" using Suc.hyps(2) by simp
  from Suc.hyps(1) [OF this s(2) step [OF Suc.prems(2) s(1)]] show ?case .
qed

lemma filterStep_reachable:
  "filterStep scr flt n j s = Inr s' \<Longrightarrow> reachable (fst s) \<Longrightarrow> reachable (fst s')"
  by (cases s)
    (auto simp: filterStep_def Let_def bindF_def split: if_splits sum.splits
      intro: reachable.by_setFold)

lemma createFilterFolds_reachable:
  assumes "createFilterFolds flt w = Inr w1" and "reachable (m_folds w)"
  shows "reachable (m_folds w1) \<and> m_screen w1 = m_screen w"
proof (cases "flt = []")
  case True
  then show ?thesis
    using assms
    by (auto simp: createFilterFolds_def Let_def
        intro!: reachable.by_removeAll reachable.by_setLineCount)
next
  case False
  let ?fs1 = "Folds_removeAll (setLineCount (nat (lineCount w)) (m_folds w))"
  from assms(1) False obtain fs2 k where
    l: "filterLoop (m_screen w) flt (lineCount w) 0 (?fs1, - 1) = Inr (fs2, k)"
    and w1: "w1 = w\<lparr>m_filterNeedsUpdate := False, m_folds := fs2\<rparr>"
    by (cases "filterLoop (m_screen w) flt (lineCount w) 0 (?fs1, - 1)")
      (auto simp: createFilterFolds_def Let_def)
  have "reachable ?fs1" using assms(2) by (intro reachable.by_removeAll reachable.by_setLineCount)
  then have "reachable (fst (fs2, k))"
    by (intro filterLoop_partial [OF l, where P = "\<lambda>s. reachable (fst s)"])
      (auto dest: filterStep_reachable)
  then show ?thesis using w1 by simp
qed

lemma createFilterFolds_empty:
  "createFilterFolds [] w
   = Inr (w\<lparr>m_filterNeedsUpdate := False,
            m_folds := Folds_removeAll (setLineCount (nat (lineCount w)) (m_folds w))\<rparr>)"
  by (simp add: createFilterFolds_def Let_def)

lemma consistent_sized_setLineCount: "consistent f \<Longrightarrow> sized n (setLineCount n f)"
  unfolding consistent_def by (auto intro: sized_setLineCount)

lemma tenLines_filter:
  "createFilterFolds ''foo'' (exampleWindow (tenLines cy) 4 0)
   = Inr ((exampleWindow (tenLines cy) 4 0)
       \<lparr>m_filterNeedsUpdate := False,
        m_folds := \<lparr>m_enabled = True,
          m_foldStarts = [True, False, False, False, False, True, False, False, False, False],
          m_foldEnds = [False, False, False, False, True, False, False, False, True, False],
          m_expanded = [False, False, False, False, False, False, False, False, False, False],
          m_filteredLines = [True, True, True, True, True, True, True, True, True, True],
          m_visibleLines = 0\<rparr>\<rparr>)"
  by (simp add: createFilterFolds_def Let_def lineCount_def exampleWindow_def tenLines_def
      newFolds_def setLineCount_def Folds_removeAll_def resize_def fill_def fillSize_def
      filterLoop.simps filterStep_def setFold_def q_assert_def testBit_def setBit_def
      numeral_eq_Suc)

subsection \<open>The scan of a properly nested configuration\<close>

lemma represents_D:
  assumes "represents n F f"
  shows "sized n f"
    and "\<And>i. i < n \<Longrightarrow> m_foldStarts f ! i = (\<exists>A\<in>set F. firstLine A = i)"
    and "\<And>i. i < n \<Longrightarrow> m_foldEnds f ! i = (\<exists>A\<in>set F. lastLine A = i)"
    and "\<And>A. A \<in> set F \<Longrightarrow> m_expanded f ! firstLine A = isExpanded A"
  using assms by (auto simp: represents_def sized_def list_ex_iff list_all_iff)

lemma properlyNested_D:
  assumes "properlyNested n F"
  shows "\<And>A. A \<in> set F \<Longrightarrow> firstLine A \<le> lastLine A \<and> lastLine A < n"
    and "\<And>A B. A \<in> set F \<Longrightarrow> B \<in> set F \<Longrightarrow> nestedOrApart A B"
  using assms by (auto simp: properlyNested_def list_all_iff)

lemma same_firstLine:
  assumes "properlyNested n F" "A \<in> set F" "B \<in> set F" "firstLine A = firstLine B"
  shows "A = B"
  using properlyNested_D(2) [OF assms(1-3)] properlyNested_D(1) [OF assms(1,2)]
    properlyNested_D(1) [OF assms(1,3)] assms(4)
  by (auto simp: nestedOrApart_def)

lemma same_lastLine:
  assumes "properlyNested n F" "A \<in> set F" "B \<in> set F" "lastLine A = lastLine B"
  shows "A = B"
  using properlyNested_D(2) [OF assms(1-3)] properlyNested_D(1) [OF assms(1,2)]
    properlyNested_D(1) [OF assms(1,3)] assms(4)
  by (auto simp: nestedOrApart_def)

lemma innermost_ends_first:
  assumes "properlyNested n F" "B \<in> set F" "C \<in> set F"
    and "firstLine C \<le> lastLine B" "lastLine B \<le> lastLine C" "firstLine B \<le> firstLine C"
  shows "C = B"
  using properlyNested_D(2) [OF assms(1,3,2)] properlyNested_D(1) [OF assms(1,2)]
    properlyNested_D(1) [OF assms(1,3)] assms(4-6)
  by (auto simp: nestedOrApart_def)

lemma hiddenAt_iff:
  "hiddenAt F j = (\<exists>A\<in>set F. \<not> isExpanded A \<and> firstLine A < j \<and> j \<le> lastLine A)"
  by (simp add: hiddenAt_def list_ex_iff)

lemma scan_step:
  assumes pn: "properlyNested n F" and rep: "represents n F f" and i: "i < n"
    and inv: "scanInv n F i st"
  shows "\<exists>st'. visStep f i st = Inr st' \<and> scanInv n F (Suc i) st'"
proof -
  obtain stk c fl where st: "st = (stk, c, fl)" by (cases st)
  from inv st obtain fs where
    len: "length fl = n" and c: "c = (False \<in> set stk)" and stk: "stk = map isExpanded fs"
    and srt: "sorted_wrt (\<lambda>A B. firstLine B < firstLine A) fs"
    and setfs: "set fs = {A \<in> set F. firstLine A < i \<and> i \<le> lastLine A}"
    and vis: "\<forall>j<i. fl ! j = (\<not> hiddenAt F j)"
    by (auto simp: scanInv_def)
  have mem: "B \<in> set fs \<longleftrightarrow> B \<in> set F \<and> firstLine B < i \<and> i \<le> lastLine B" for B
    by (simp add: setfs)
  note R = represents_D [OF rep]
  note P = properlyNested_D [OF pn]
  have sz: "i < length (m_foldStarts f)" "i < length (m_foldEnds f)"
    "i < length (m_expanded f)" "i < length fl"
    using R(1) i len by (simp_all add: sized_def)
  define fl1 where "fl1 = fl[i := \<not> c]"
  have len1: "length fl1 = n" by (simp add: fl1_def len)
  have ci: "c = hiddenAt F i"
    unfolding c stk hiddenAt_iff by (auto simp: mem)
  have vis1: "\<forall>j<Suc i. fl1 ! j = (\<not> hiddenAt F j)"
    using vis ci sz(4) by (auto simp: fl1_def less_Suc_eq nth_list_update)
  define stk1 where "stk1 = (if m_foldStarts f ! i then m_expanded f ! i # stk else stk)"
  define c1 where "c1 = (if m_foldStarts f ! i \<and> \<not> m_expanded f ! i then True else c)"
  have "\<exists>fs1. stk1 = map isExpanded fs1
            \<and> sorted_wrt (\<lambda>A B. firstLine B < firstLine A) fs1
            \<and> set fs1 = {A \<in> set F. firstLine A \<le> i \<and> i \<le> lastLine A}
            \<and> c1 = (False \<in> set stk1)"
  proof (cases "m_foldStarts f ! i")
    case True
    then obtain A where A: "A \<in> set F" "firstLine A = i" using R(2) [OF i] by auto
    have ex: "m_expanded f ! i = isExpanded A" using R(4) [OF A(1)] A(2) by simp
    have uniq: "B = A" if "B \<in> set F" "firstLine B = i" for B
      using same_firstLine [OF pn that(1) A(1)] that(2) A(2) by simp
    have s1: "stk1 = map isExpanded (A # fs)" using True ex stk by (simp add: stk1_def)
    have s2: "sorted_wrt (\<lambda>A B. firstLine B < firstLine A) (A # fs)"
      using srt A(2) by (simp add: mem)
    have s3: "set (A # fs) = {A \<in> set F. firstLine A \<le> i \<and> i \<le> lastLine A}"
    proof (intro set_eqI iffI)
      fix B assume "B \<in> set (A # fs)"
      then show "B \<in> {A \<in> set F. firstLine A \<le> i \<and> i \<le> lastLine A}"
        using A P(1) [OF A(1)] by (auto simp: mem)
    next
      fix B assume "B \<in> {A \<in> set F. firstLine A \<le> i \<and> i \<le> lastLine A}"
      then have b: "B \<in> set F" "firstLine B \<le> i" "i \<le> lastLine B" by auto
      show "B \<in> set (A # fs)"
      proof (cases "firstLine B = i")
        case True
        then show ?thesis using uniq [OF b(1)] by simp
      next
        case False
        then show ?thesis using b by (simp add: mem)
      qed
    qed
    have s4: "c1 = (False \<in> set stk1)"
      using True ex c by (auto simp: c1_def stk1_def)
    show ?thesis using s1 s2 s3 s4 by blast
  next
    case False
    then have none: "firstLine A \<noteq> i" if "A \<in> set F" for A
      using R(2) [OF i] that by auto
    have s3: "set fs = {A \<in> set F. firstLine A \<le> i \<and> i \<le> lastLine A}"
      using none by (auto simp: mem le_less)
    show ?thesis using False stk srt s3 c by (auto simp: stk1_def c1_def)
  qed
  then obtain fs1 where
    stk1: "stk1 = map isExpanded fs1"
    and srt1: "sorted_wrt (\<lambda>A B. firstLine B < firstLine A) fs1"
    and set1: "set fs1 = {A \<in> set F. firstLine A \<le> i \<and> i \<le> lastLine A}"
    and c1: "c1 = (False \<in> set stk1)"
    by blast
  have mem1: "B \<in> set fs1 \<longleftrightarrow> B \<in> set F \<and> firstLine B \<le> i \<and> i \<le> lastLine B" for B
    by (simp add: set1)
  have step: "visStep f i st =
     (if m_foldEnds f ! i
      then (case stk1 of [] \<Rightarrow> Inl PopEmptyStack
            | x # stk2 \<Rightarrow> Inr (stk2, False \<in> set stk2, fl1))
      else Inr (stk1, c1, fl1))"
    unfolding st visStep_sized [OF sz]
    by (simp add: Let_def stk1_def c1_def fl1_def split: list.splits)
  show ?thesis
  proof (cases "m_foldEnds f ! i")
    case True
    then obtain B where B: "B \<in> set F" "lastLine B = i" using R(3) [OF i] by auto
    have Bin: "B \<in> set fs1" using B P(1) [OF B(1)] by (simp add: mem1)
    then obtain C fs2 where fs1: "fs1 = C # fs2" by (cases fs1) auto
    have Cin: "C \<in> set F" "firstLine C \<le> i" "i \<le> lastLine C"
      using mem1 [of C] fs1 by simp_all
    have "firstLine B \<le> firstLine C" using Bin srt1 fs1 by auto
    then have CB: "C = B"
      using innermost_ends_first [OF pn B(1) Cin(1)] Cin(2,3) B(2) by simp
    have srt2: "sorted_wrt (\<lambda>A B. firstLine B < firstLine A) fs2" using srt1 fs1 by simp
    have notin: "C \<notin> set fs2" using srt1 fs1 by auto
    have set2: "set fs2 = {A \<in> set F. firstLine A < Suc i \<and> Suc i \<le> lastLine A}"
    proof (intro set_eqI iffI)
      fix A assume a: "A \<in> set fs2"
      then have m: "A \<in> set F" "firstLine A \<le> i" "i \<le> lastLine A"
        using mem1 [of A] fs1 by simp_all
      have "A \<noteq> B" using a notin CB by auto
      then have "lastLine A \<noteq> i" using same_lastLine [OF pn m(1) B(1)] B(2) by auto
      then show "A \<in> {A \<in> set F. firstLine A < Suc i \<and> Suc i \<le> lastLine A}"
        using m by auto
    next
      fix A assume "A \<in> {A \<in> set F. firstLine A < Suc i \<and> Suc i \<le> lastLine A}"
      then have m: "A \<in> set F" "firstLine A \<le> i" "i < lastLine A" by auto
      then have "A \<in> set fs1" by (simp add: mem1)
      moreover have "A \<noteq> C" using CB B(2) m(3) by auto
      ultimately show "A \<in> set fs2" using fs1 by auto
    qed
    have "visStep f i st = Inr (map isExpanded fs2, False \<in> set (map isExpanded fs2), fl1)"
      using True step stk1 fs1 by simp
    moreover have "scanInv n F (Suc i) (map isExpanded fs2, False \<in> set (map isExpanded fs2), fl1)"
      unfolding scanInv_def using len1 srt2 vis1 by (auto simp: set2 [symmetric])
    ultimately show ?thesis by blast
  next
    case False
    then have none: "lastLine A \<noteq> i" if "A \<in> set F" for A
      using R(3) [OF i] that by auto
    have set2: "set fs1 = {A \<in> set F. firstLine A < Suc i \<and> Suc i \<le> lastLine A}"
    proof (intro set_eqI iffI)
      fix A assume "A \<in> set fs1"
      then have m: "A \<in> set F" "firstLine A \<le> i" "i \<le> lastLine A"
        using mem1 [of A] by simp_all
      have "lastLine A \<noteq> i" using none [OF m(1)] .
      then show "A \<in> {A \<in> set F. firstLine A < Suc i \<and> Suc i \<le> lastLine A}"
        using m by auto
    next
      fix A assume "A \<in> {A \<in> set F. firstLine A < Suc i \<and> Suc i \<le> lastLine A}"
      then show "A \<in> set fs1" by (auto simp: mem1)
    qed
    have "visStep f i st = Inr (stk1, c1, fl1)" using False step by simp
    moreover have "scanInv n F (Suc i) (stk1, c1, fl1)"
      unfolding scanInv_def using len1 srt1 vis1 stk1 c1 by (auto simp: set2 [symmetric])
    ultimately show ?thesis by blast
  qed
qed

lemma scan_total:
  assumes pn: "properlyNested n F" and rep: "represents n F f"
  shows "\<exists>fl. updateVisibleLines f
               = Inr (f\<lparr>m_filteredLines := fl, m_visibleLines := countTrue fl\<rparr>)
             \<and> length fl = n \<and> (\<forall>j<n. fl ! j = (\<not> hiddenAt F j))"
proof -
  note R = represents_D [OF rep]
  note P = properlyNested_D [OF pn]
  have len: "length (m_filteredLines f) = n" using R(1) by (simp add: sized_def)
  have init: "scanInv n F 0 ([], False, fill True (m_filteredLines f))"
    by (simp add: scanInv_def len)
  have "\<exists>st'. visLoop f n 0 ([], False, fill True (m_filteredLines f)) = Inr st'
             \<and> scanInv n F n st'"
  proof (rule visLoop_total [where I = "scanInv n F", OF init])
    show "0 \<le> n" by simp
  next
    fix j and s :: scanState
    assume "j < n" "scanInv n F j s"
    then show "\<exists>s'. visStep f j s = Inr s' \<and> scanInv n F (Suc j) s'"
      by (rule scan_step [OF pn rep])
  qed
  then obtain stk c fl where
    loop: "visLoop f n 0 ([], False, fill True (m_filteredLines f)) = Inr (stk, c, fl)"
    and inv: "scanInv n F n (stk, c, fl)"
    by (metis prod_cases3)
  from inv obtain fs where fs: "stk = map isExpanded fs"
    "set fs = {A \<in> set F. firstLine A < n \<and> n \<le> lastLine A}"
    and fl: "length fl = n" "\<forall>j<n. fl ! j = (\<not> hiddenAt F j)"
    by (auto simp: scanInv_def)
  have "set fs = {}" unfolding fs(2) using P(1) by fastforce
  then have "stk = []" using fs(1) by simp
  then have "updateVisibleLines f = Inr (f\<lparr>m_filteredLines := fl, m_visibleLines := countTrue fl\<rparr>)"
    using loop len by (simp add: updateVisibleLines_def q_assert_def)
  then show ?thesis using fl by blast
qed

subsection \<open>Balanced markers\<close>

lemma countTrue_Cons [simp]: "countTrue (x # xs) = (if x then 1 else 0) + countTrue xs"
  by (simp add: countTrue_def)

lemma countTrue_Nil [simp]: "countTrue [] = 0"
  by (simp add: countTrue_def)

lemma countTrue_append [simp]: "countTrue (xs @ ys) = countTrue xs + countTrue ys"
  by (simp add: countTrue_def)

lemma countTrue_take_Suc:
  "i < length xs \<Longrightarrow> countTrue (take (Suc i) xs) = countTrue (take i xs) + (if xs ! i then 1 else 0)"
  by (simp add: take_Suc_conv_app_nth)

lemma countTrue_set:
  "k < length xs \<Longrightarrow> \<not> xs ! k \<Longrightarrow> countTrue (xs[k := True]) = countTrue xs + 1"
proof (induction xs arbitrary: k)
  case Nil
  then show ?case by simp
next
  case (Cons x xs)
  then show ?case by (cases k) auto
qed

lemma countTrue_take_set:
  assumes "k < length xs" "\<not> xs ! k"
  shows "countTrue (take i (xs[k := True])) = countTrue (take i xs) + (if k < i then 1 else 0)"
proof (cases "k < i")
  case True
  then have "k < length (take i xs)" "\<not> take i xs ! k" using assms by simp_all
  then show ?thesis using True by (simp add: take_update_swap countTrue_set)
next
  case False
  then show ?thesis by (simp add: take_update_cancel)
qed

lemma countTrue_replicate_False [simp]: "countTrue (replicate n False) = 0"
  by (simp add: countTrue_def)

lemma markersBalanced_cleared:
  "consistent f0 \<Longrightarrow> markersBalanced (Folds_removeAll (setLineCount n f0))"
  by (simp add: markersBalanced_def Folds_removeAll_def fill_def)

lemma markersBalanced_setFold:
  assumes "setFold s e True f = Inr f'" and "markersBalanced f"
  shows "markersBalanced f'"
proof -
  note S = setFold_Inr [OF assms(1)]
  let ?s = "nat s" and ?e = "nat e"
  have r: "?s < length (m_foldStarts f)" "?e < length (m_foldEnds f)" "?s \<le> ?e"
    using S by auto
  have f': "m_foldStarts f' = (m_foldStarts f)[?s := True]"
    "m_foldEnds f' = (m_foldEnds f)[?e := True]"
    using S by simp_all
  show ?thesis
  proof (cases "m_foldStarts f ! ?s")
    case True
    then have "m_foldEnds f ! ?e" using S by simp
    then have "m_foldStarts f' = m_foldStarts f" "m_foldEnds f' = m_foldEnds f"
      using True f' by (simp_all add: list_update_same_conv [OF r(1)] list_update_same_conv [OF r(2)])
    then show ?thesis using assms(2) by (simp add: markersBalanced_def)
  next
    case False
    then have ne: "\<not> m_foldEnds f ! ?e" using S by simp
    have tot: "countTrue (m_foldEnds f') = countTrue (m_foldStarts f')"
      using assms(2) by (simp add: f' countTrue_set [OF r(1) False] countTrue_set [OF r(2) ne]
          markersBalanced_def)
    have pre: "countTrue (take i (m_foldEnds f')) \<le> countTrue (take i (m_foldStarts f'))" for i
    proof -
      have "countTrue (take i (m_foldEnds f)) \<le> countTrue (take i (m_foldStarts f))"
        using assms(2) by (simp add: markersBalanced_def)
      then show ?thesis
        using r(3)
        by (simp add: f' countTrue_take_set [OF r(1) False] countTrue_take_set [OF r(2) ne])
    qed
    show ?thesis using tot pre by (simp add: markersBalanced_def)
  qed
qed

lemma setFolds_balanced:
  assumes "setFolds calls f = Inr f'" and "list_all (\<lambda>(s, e, b). b) calls"
    and "markersBalanced f" and "sized n f"
  shows "markersBalanced f' \<and> sized n f'"
  using assms
proof (induction calls arbitrary: f)
  case Nil
  then show ?case by simp
next
  case (Cons c calls)
  obtain s e b where c: "c = (s, e, b)" by (cases c)
  have b: "b" using Cons.prems(2) c by simp
  from Cons.prems(1) c obtain f1 where
    f1: "setFold s e b f = Inr f1" "setFolds calls f1 = Inr f'"
    by (cases "setFold s e b f") auto
  have "markersBalanced f1" using markersBalanced_setFold f1(1) b Cons.prems(3) by simp
  moreover have "sized n f1" using sized_setFold [OF f1(1) Cons.prems(4)] .
  ultimately show ?case using Cons.IH [OF f1(2)] Cons.prems(2) by simp
qed

lemma balanced_scan_step:
  assumes bal: "markersBalanced f" and sz: "sized n f" and i: "i < n"
    and inv: "length (snd (snd st)) = n
              \<and> int (length (fst st)) + countTrue (take i (m_foldEnds f))
                  = countTrue (take i (m_foldStarts f))"
  shows "\<exists>st'. visStep f i st = Inr st'
           \<and> length (snd (snd st')) = n
           \<and> int (length (fst st')) + countTrue (take (Suc i) (m_foldEnds f))
               = countTrue (take (Suc i) (m_foldStarts f))"
proof -
  obtain stk c fl where st: "st = (stk, c, fl)" by (cases st)
  have l: "i < length (m_foldStarts f)" "i < length (m_foldEnds f)" "i < length (m_expanded f)"
    "i < length fl"
    using sz i inv st by (simp_all add: sized_def)
  have le: "countTrue (take (Suc i) (m_foldEnds f)) \<le> countTrue (take (Suc i) (m_foldStarts f))"
    using bal by (simp add: markersBalanced_def)
  show ?thesis
  proof (cases "m_foldEnds f ! i")
    case False
    then show ?thesis
      using inv st unfolding st visStep_sized [OF l]
      by (simp add: Let_def countTrue_take_Suc [OF l(1)] countTrue_take_Suc [OF l(2)])
  next
    case True
    let ?stk1 = "(if m_foldStarts f ! i then m_expanded f ! i # stk else stk)"
    have "int (length ?stk1) + countTrue (take i (m_foldEnds f))
          = countTrue (take (Suc i) (m_foldStarts f))"
      using inv st by (simp add: countTrue_take_Suc [OF l(1)])
    moreover have "countTrue (take (Suc i) (m_foldEnds f)) = countTrue (take i (m_foldEnds f)) + 1"
      using True by (simp add: countTrue_take_Suc [OF l(2)])
    ultimately have len: "int (length ?stk1) = countTrue (take (Suc i) (m_foldStarts f))
        - countTrue (take (Suc i) (m_foldEnds f)) + 1"
      by simp
    then have "?stk1 \<noteq> []" using le by auto
    then obtain x stk2 where s1: "?stk1 = x # stk2" by (cases ?stk1) auto
    have "int (length stk2) + countTrue (take (Suc i) (m_foldEnds f))
          = countTrue (take (Suc i) (m_foldStarts f))"
      using len s1 by simp
    moreover have "visStep f i st = Inr (stk2, False \<in> set stk2, fl[i := \<not> c])"
      unfolding st visStep_sized [OF l] using True s1 by (simp add: Let_def)
    ultimately show ?thesis using inv st by simp
  qed
qed

lemma balanced_scan:
  assumes bal: "markersBalanced f" and sz: "sized n f"
  shows "\<exists>c fl. visLoop f (length (m_filteredLines f)) 0
                   ([], False, fill True (m_filteredLines f)) = Inr ([], c, fl)
              \<and> updateVisibleLines f
                   = Inr (f\<lparr>m_filteredLines := fl, m_visibleLines := countTrue fl\<rparr>)"
proof -
  let ?I = "\<lambda>i (st :: scanState). length (snd (snd st)) = n
              \<and> int (length (fst st)) + countTrue (take i (m_foldEnds f))
                  = countTrue (take i (m_foldStarts f))"
  have n: "length (m_filteredLines f) = n" "length (m_foldStarts f) = n" "length (m_foldEnds f) = n"
    using sz by (simp_all add: sized_def)
  have "\<exists>st'. visLoop f n 0 ([], False, fill True (m_filteredLines f)) = Inr st' \<and> ?I n st'"
  proof (rule visLoop_total [where I = ?I])
    show "?I 0 ([], False, fill True (m_filteredLines f))" by (simp add: n)
    show "0 \<le> n" by simp
  next
    fix j and s :: scanState
    assume "j < n" "?I j s"
    then show "\<exists>s'. visStep f j s = Inr s' \<and> ?I (Suc j) s'"
      using balanced_scan_step [OF bal sz] by blast
  qed
  then obtain stk c fl where
    loop: "visLoop f n 0 ([], False, fill True (m_filteredLines f)) = Inr (stk, c, fl)"
    and fin: "int (length stk) + countTrue (take n (m_foldEnds f)) = countTrue (take n (m_foldStarts f))"
    by (metis prod_cases3 fst_conv)
  have "countTrue (m_foldEnds f) = countTrue (m_foldStarts f)"
    using bal by (simp add: markersBalanced_def)
  then have "stk = []" using fin n by simp
  then show ?thesis using loop n by (simp add: updateVisibleLines_def q_assert_def)
qed

subsection \<open>Sequences of calls with nested ranges\<close>

lemma map_upt_eq_iff:
  "xs = map g [0..<n] \<longleftrightarrow> length xs = n \<and> (\<forall>i<n. xs ! i = g i)"
proof
  assume "xs = map g [0..<n]"
  then show "length xs = n \<and> (\<forall>i<n. xs ! i = g i)" by simp
next
  assume r: "length xs = n \<and> (\<forall>i<n. xs ! i = g i)"
  show "xs = map g [0..<n]" by (rule nth_equalityI) (use r in simp_all)
qed

lemma represents_iff:
  "represents n F f \<longleftrightarrow>
     sized n f
     \<and> (\<forall>i<n. m_foldStarts f ! i = (\<exists>A\<in>set F. firstLine A = i))
     \<and> (\<forall>i<n. m_foldEnds f ! i = (\<exists>A\<in>set F. lastLine A = i))
     \<and> (\<forall>A\<in>set F. m_expanded f ! firstLine A = isExpanded A)"
  unfolding represents_def sized_def map_upt_eq_iff list_ex_iff list_all_iff by blast

lemma properlyNested_iff:
  "properlyNested n F \<longleftrightarrow>
     (\<forall>A\<in>set F. firstLine A \<le> lastLine A \<and> lastLine A < n)
     \<and> (\<forall>A\<in>set F. \<forall>B\<in>set F. nestedOrApart A B)"
  by (simp add: properlyNested_def list_all_iff)

lemma nestedOrApart_sym: "nestedOrApart A B \<Longrightarrow> nestedOrApart B A"
  by (auto simp: nestedOrApart_def)

lemma setFold_ok:
  assumes "sized n f" and "0 \<le> s" and "s \<le> e" and "e < int n"
    and "m_foldStarts f ! nat s = m_foldEnds f ! nat e"
  shows "setFold s e b f
         = Inr (f\<lparr>m_enabled := True, m_foldStarts := (m_foldStarts f)[nat s := b],
                  m_foldEnds := (m_foldEnds f)[nat e := b],
                  m_expanded := (m_expanded f)[nat s := False]\<rparr>)"
  using assms
  by (simp add: setFold_def sized_def q_assert_def testBit_simps setBit_simps Let_def)

lemma nested_setFold:
  assumes pn: "properlyNested n L" and rep: "represents n L f"
    and flags: "\<forall>A\<in>set L. \<not> isExpanded A"
    and rng: "0 \<le> s" "s \<le> e" "e < int n"
    and comp: "\<forall>A\<in>set L. rangesCompatible (s, e) (int (firstLine A), int (lastLine A))"
  shows "\<exists>f' L'. setFold s e b f = Inr f' \<and> properlyNested n L' \<and> represents n L' f'
            \<and> (\<forall>A\<in>set L'. \<not> isExpanded A)
            \<and> set L' \<subseteq> insert (FoldRange (nat s) (nat e) False) (set L)"
proof -
  let ?s = "nat s" and ?e = "nat e"
  let ?A = "FoldRange ?s ?e False"
  note R = represents_iff [THEN iffD1, OF rep]
  note P = properlyNested_iff [THEN iffD1, OF pn]
  have se: "?s \<le> ?e" "?e < n" "?s < n" using rng by auto
  have sz: "sized n f" using R by simp
  have first: "X = ?A" if "X \<in> set L" "firstLine X = ?s" for X
  proof -
    have "rangesCompatible (s, e) (int (firstLine X), int (lastLine X))"
      using comp that(1) by blast
    moreover have "firstLine X \<le> lastLine X" using P that(1) by blast
    ultimately have "lastLine X = ?e"
      using that(2) rng by (auto simp: rangesCompatible_def)
    then show ?thesis using that flags by (cases X) auto
  qed
  have last: "X = ?A" if "X \<in> set L" "lastLine X = ?e" for X
  proof -
    have "rangesCompatible (s, e) (int (firstLine X), int (lastLine X))"
      using comp that(1) by blast
    moreover have "firstLine X \<le> lastLine X" using P that(1) by blast
    ultimately have "firstLine X = ?s"
      using that(2) rng by (auto simp: rangesCompatible_def)
    then show ?thesis using that flags by (cases X) auto
  qed
  have st: "m_foldStarts f ! ?s = (?A \<in> set L)"
    using R se(3) first by (metis foldRange.sel(1))
  have en: "m_foldEnds f ! ?e = (?A \<in> set L)"
    using R se(2) last by (metis foldRange.sel(2))
  let ?f' = "f\<lparr>m_enabled := True, m_foldStarts := (m_foldStarts f)[?s := b],
                m_foldEnds := (m_foldEnds f)[?e := b],
                m_expanded := (m_expanded f)[?s := False]\<rparr>"
  have ok: "setFold s e b f = Inr ?f'"
    using setFold_ok [OF sz rng] st en by simp
  define L' where "L' = (if b then (if ?A \<in> set L then L else ?A # L) else filter (\<lambda>X. X \<noteq> ?A) L)"
  have sub: "set L' \<subseteq> insert ?A (set L)" by (auto simp: L'_def)
  have inL': "X \<in> set L' \<longleftrightarrow> (if b then X = ?A \<or> X \<in> set L else X \<in> set L \<and> X \<noteq> ?A)" for X
    by (auto simp: L'_def)
  have other: "X \<in> set L' \<longleftrightarrow> X \<in> set L" if "X \<noteq> ?A" for X
    using that by (auto simp: L'_def)
  have fl': "\<forall>X\<in>set L'. \<not> isExpanded X" using flags sub by auto
  have compA: "nestedOrApart ?A X" if "X \<in> set L" for X
  proof -
    have "rangesCompatible (s, e) (int (firstLine X), int (lastLine X))"
      using comp that by blast
    moreover have "\<not> isExpanded X" using flags that by blast
    ultimately show ?thesis
      using rng by (cases X) (auto simp: rangesCompatible_def nestedOrApart_def)
  qed
  have in': "firstLine X \<le> lastLine X \<and> lastLine X < n" if "X \<in> set L'" for X
    using that sub P se by auto
  have nest': "nestedOrApart X Y" if "X \<in> set L'" "Y \<in> set L'" for X Y
  proof -
    have "X = ?A \<or> X \<in> set L" "Y = ?A \<or> Y \<in> set L" using that sub by auto
    then show ?thesis
      using P compA nestedOrApart_sym by (metis nestedOrApart_def)
  qed
  have pn': "properlyNested n L'"
    unfolding properlyNested_iff using in' nest' by blast
  have sz': "sized n ?f'" using sz by (simp add: sized_def)
  have starts': "m_foldStarts ?f' ! i = (\<exists>X\<in>set L'. firstLine X = i)" if "i < n" for i
  proof (cases "i = ?s")
    case True
    have "(\<exists>X\<in>set L'. firstLine X = ?s) = b"
    proof (cases b)
      case True
      then have "?A \<in> set L'" by (simp add: inL')
      moreover have "firstLine ?A = ?s" by simp
      ultimately show ?thesis using True by blast
    next
      case False
      have "firstLine X \<noteq> ?s" if "X \<in> set L'" for X
      proof
        assume "firstLine X = ?s"
        moreover have "X \<in> set L" "X \<noteq> ?A" using that False by (simp_all add: inL')
        ultimately show False using first by blast
      qed
      then show ?thesis using False by blast
    qed
    then show ?thesis using True se sz by (simp add: sized_def)
  next
    case False
    have "X \<noteq> ?A" if "firstLine X = i" for X using that False by auto
    then have "(\<exists>X\<in>set L'. firstLine X = i) = (\<exists>X\<in>set L. firstLine X = i)"
      using other by blast
    then show ?thesis using False R that by simp
  qed
  have ends': "m_foldEnds ?f' ! i = (\<exists>X\<in>set L'. lastLine X = i)" if "i < n" for i
  proof (cases "i = ?e")
    case True
    have "(\<exists>X\<in>set L'. lastLine X = ?e) = b"
    proof (cases b)
      case True
      then have "?A \<in> set L'" by (simp add: inL')
      moreover have "lastLine ?A = ?e" by simp
      ultimately show ?thesis using True by blast
    next
      case False
      have "lastLine X \<noteq> ?e" if "X \<in> set L'" for X
      proof
        assume "lastLine X = ?e"
        moreover have "X \<in> set L" "X \<noteq> ?A" using that False by (simp_all add: inL')
        ultimately show False using last by blast
      qed
      then show ?thesis using False by blast
    qed
    then show ?thesis using True se sz by (simp add: sized_def)
  next
    case False
    have "X \<noteq> ?A" if "lastLine X = i" for X using that False by auto
    then have "(\<exists>X\<in>set L'. lastLine X = i) = (\<exists>X\<in>set L. lastLine X = i)"
      using other by blast
    then show ?thesis using False R that by simp
  qed
  have ex': "m_expanded ?f' ! firstLine X = isExpanded X" if "X \<in> set L'" for X
  proof (cases "firstLine X = ?s")
    case True
    then show ?thesis using fl' that se sz by (simp add: sized_def)
  next
    case False
    then have "X \<in> set L" using that sub by auto
    then show ?thesis using False R by simp
  qed
  have rep': "represents n L' ?f'"
    unfolding represents_iff using sz' starts' ends' ex' by blast
  show ?thesis using ok pn' rep' fl' sub by blast
qed

lemma nested_setFolds:
  assumes "properlyNested n L" and "represents n L f" and "\<forall>A\<in>set L. \<not> isExpanded A"
    and "\<forall>c\<in>set calls. 0 \<le> fst (callRange c) \<and> fst (callRange c) \<le> snd (callRange c)
            \<and> snd (callRange c) < int n"
    and "\<forall>c\<in>set calls. \<forall>A\<in>set L.
            rangesCompatible (callRange c) (int (firstLine A), int (lastLine A))"
    and "\<forall>c\<in>set calls. \<forall>d\<in>set calls. rangesCompatible (callRange c) (callRange d)"
  shows "\<exists>f' L'. setFolds calls f = Inr f' \<and> properlyNested n L' \<and> represents n L' f'"
  using assms
proof (induction calls arbitrary: f L)
  case Nil
  then show ?case by auto
next
  case (Cons c calls)
  obtain s e b where c: "c = (s, e, b)" by (cases c)
  have rng: "0 \<le> s" "s \<le> e" "e < int n"
    using Cons.prems(4) c by (simp_all add: callRange_def)
  have comp: "\<forall>A\<in>set L. rangesCompatible (s, e) (int (firstLine A), int (lastLine A))"
    using Cons.prems(5) c by (simp add: callRange_def)
  from nested_setFold [OF Cons.prems(1,2,3) rng comp, of b] obtain f1 L1 where
    f1: "setFold s e b f = Inr f1" and pn1: "properlyNested n L1" and rep1: "represents n L1 f1"
    and fl1: "\<forall>A\<in>set L1. \<not> isExpanded A"
    and sub: "set L1 \<subseteq> insert (FoldRange (nat s) (nat e) False) (set L)"
    by blast
  have r4: "\<forall>c\<in>set calls. 0 \<le> fst (callRange c) \<and> fst (callRange c) \<le> snd (callRange c)
            \<and> snd (callRange c) < int n"
    using Cons.prems(4) by simp
  have r6: "\<forall>c\<in>set calls. \<forall>d\<in>set calls. rangesCompatible (callRange c) (callRange d)"
    using Cons.prems(6) by simp
  have r5: "\<forall>d\<in>set calls. \<forall>A\<in>set L1.
            rangesCompatible (callRange d) (int (firstLine A), int (lastLine A))"
  proof (intro ballI)
    fix d A assume d: "d \<in> set calls" and A: "A \<in> set L1"
    show "rangesCompatible (callRange d) (int (firstLine A), int (lastLine A))"
    proof (cases "A \<in> set L")
      case True
      then show ?thesis using Cons.prems(5) d by simp
    next
      case False
      then have "A = FoldRange (nat s) (nat e) False" using A sub by auto
      moreover have "rangesCompatible (callRange d) (callRange c)"
        using Cons.prems(6) d by simp
      ultimately show ?thesis using rng c by (simp add: callRange_def)
    qed
  qed
  from Cons.IH [OF pn1 rep1 fl1 r4 r5 r6] obtain f' L' where
    "setFolds calls f1 = Inr f'" "properlyNested n L'" "represents n L' f'"
    by blast
  then show ?case using f1 c by auto
qed

lemma represents_cleared:
  assumes "consistent f0"
  shows "represents n [] (Folds_removeAll (setLineCount n f0))"
proof -
  have "sized n (Folds_removeAll (setLineCount n f0))"
    using assms by (intro sized_removeAll consistent_sized_setLineCount)
  then show ?thesis
    unfolding represents_iff
    by (simp add: Folds_removeAll_def fill_def sized_def)
qed

subsection \<open>The loops of the filtered image\<close>










subsection \<open>The scroll counter\<close>

lemma sint_add_in_range:
  fixes a :: "32 word"
  assumes "- (2 ^ 31) \<le> sint a + d" and "sint a + d < 2 ^ 31"
  shows "sint (a + word_of_int d) = sint a + d"
proof -
  have "a + word_of_int d = word_of_int (sint a + d)" by simp
  then have "sint (a + word_of_int d) = signed_take_bit 31 (sint a + d)"
    by (simp only: sint_sbintrunc') simp
  then show ?thesis using assms by (simp add: signed_take_bit_int_eq_self)
qed

section \<open>New folds start collapsed\<close>

text \<open>
  Claim C2. Let the fold table have \<open>n\<close> lines and let \<open>startLine \<le> endLine\<close> be two of
  them whose start and end bits agree (the consistency check of \<^verbatim>\<open>setFold\<close>). Then
  \<^verbatim>\<open>setFold(startLine, endLine, open)\<close> returns, and for either value of its third
  argument the expanded bit of \<open>startLine\<close> is false afterwards and no other expanded
  bit changes. When the argument is true the call creates the fold: \<open>startLine\<close> is a
  fold start and \<^verbatim>\<open>isOpen\<close> reports it collapsed.
\<close>

theorem setFold_starts_collapsed:
  assumes "sized n f" and "0 \<le> startLine" and "startLine \<le> endLine" and "endLine < int n"
    and "m_foldStarts f ! nat startLine = m_foldEnds f ! nat endLine"
  shows "\<exists>f'. setFold startLine endLine opn f = Inr f'
           \<and> testBit (m_expanded f') startLine = Inr False
           \<and> m_expanded f' = (m_expanded f)[nat startLine := False]
           \<and> (opn \<longrightarrow> foldType f' startLine = Inr FoldStart \<and> isOpen f' startLine = Inr False)"
  using assms
  by (simp add: setFold_def sized_def q_assert_def testBit_simps setBit_simps Let_def
      foldType_def isOpen_def)

theorem setFold_starts_collapsed_witness:
  "\<exists>f'. setFold 1 2 True
          \<lparr>m_enabled = False, m_foldStarts = [False, False, False],
           m_foldEnds = [False, False, False], m_expanded = [True, True, True],
           m_filteredLines = [True, True, True], m_visibleLines = 3\<rparr> = Inr f'
        \<and> testBit (m_expanded f') 1 = Inr False
        \<and> m_expanded f' = [True, False, True]
        \<and> isOpen f' 1 = Inr False"
  using setFold_starts_collapsed [of 3 "\<lparr>m_enabled = False, m_foldStarts = [False, False, False],
           m_foldEnds = [False, False, False], m_expanded = [True, True, True],
           m_filteredLines = [True, True, True], m_visibleLines = 3\<rparr>" 1 2 True]
  by (auto simp: sized_def)

section \<open>Scrolling\<close>

text \<open>
  Claim C7, as stated, fails when the window is taller than the buffer: with 5 buffer
  lines and a window of 10 lines, \<open>lineCount - height\<close> is \<open>-5\<close>; line 3 lies beyond
  it, and \<^verbatim>\<open>scrollTo(3)\<close> stores the top line 0, which is neither \<open>-5\<close> nor a value
  between 0 and \<open>-5\<close>.
\<close>

theorem scrollTo_counterexample:
  "lineCount (exampleWindow (exampleScreen 0 5) 10 0)
     - windowLines (exampleWindow (exampleScreen 0 5) 10 0) = - 5
   \<and> m_currentLine (scrollTo 3 (exampleWindow (exampleScreen 0 5) 10 0)) = 0
   \<and> m_currentLine (scrollTo 3 (exampleWindow (exampleScreen 0 5) 10 0))
       \<noteq> lineCount (exampleWindow (exampleScreen 0 5) 10 0)
           - windowLines (exampleWindow (exampleScreen 0 5) 10 0)"
  by (simp add: scrollTo_def qBound_def lineCount_def windowLines_def Let_def
      exampleWindow_def exampleScreen_def)

text \<open>
  Claim C7, amended. For every argument \<open>line\<close>, \<^verbatim>\<open>scrollTo(line)\<close> stores
  \<open>max 0 (min (lineCount - height) line)\<close> as the top line. When the window is not
  taller than the buffer (\<open>height \<le> lineCount\<close>) this is \<open>line\<close> clamped into
  \<open>[0, lineCount - height]\<close>: a line beyond \<open>lineCount - height\<close> becomes
  \<open>lineCount - height\<close>, a negative line becomes 0, a line in between is kept. When the
  window is taller than the buffer the stored top line is 0. In every case the
  difference between the new and the previous stored top line is added to the scroll
  counter in 32-bit arithmetic: the new counter is the sum when the sum is a 32-bit
  signed value, and the sum wrapped around otherwise.
\<close>

theorem scrollTo_clamps:
  "m_currentLine (scrollTo line w) = max 0 (min (lineCount w - windowLines w) line)
   \<and> (windowLines w \<le> lineCount w \<longrightarrow>
        0 \<le> m_currentLine (scrollTo line w)
        \<and> m_currentLine (scrollTo line w) \<le> lineCount w - windowLines w
        \<and> (lineCount w - windowLines w < line \<longrightarrow>
             m_currentLine (scrollTo line w) = lineCount w - windowLines w)
        \<and> (line < 0 \<longrightarrow> m_currentLine (scrollTo line w) = 0)
        \<and> (0 \<le> line \<and> line \<le> lineCount w - windowLines w \<longrightarrow>
             m_currentLine (scrollTo line w) = line))
   \<and> (lineCount w < windowLines w \<longrightarrow> m_currentLine (scrollTo line w) = 0)
   \<and> m_scrollCount (scrollTo line w)
       = m_scrollCount w + word_of_int (m_currentLine (scrollTo line w) - m_currentLine w)
   \<and> (- (2 ^ 31) \<le> sint (m_scrollCount w) + (m_currentLine (scrollTo line w) - m_currentLine w)
        \<and> sint (m_scrollCount w) + (m_currentLine (scrollTo line w) - m_currentLine w) < 2 ^ 31 \<longrightarrow>
        sint (m_scrollCount (scrollTo line w))
        = sint (m_scrollCount w) + (m_currentLine (scrollTo line w) - m_currentLine w))"
proof -
  have sc: "m_scrollCount (scrollTo line w)
       = m_scrollCount w + word_of_int (m_currentLine (scrollTo line w) - m_currentLine w)"
    by (simp add: scrollTo_def Let_def)
  have top: "m_currentLine (scrollTo line w) = max 0 (min (lineCount w - windowLines w) line)"
    by (simp add: scrollTo_def qBound_def Let_def)
  have clamp: "(windowLines w \<le> lineCount w \<longrightarrow>
        0 \<le> m_currentLine (scrollTo line w)
        \<and> m_currentLine (scrollTo line w) \<le> lineCount w - windowLines w
        \<and> (lineCount w - windowLines w < line \<longrightarrow>
             m_currentLine (scrollTo line w) = lineCount w - windowLines w)
        \<and> (line < 0 \<longrightarrow> m_currentLine (scrollTo line w) = 0)
        \<and> (0 \<le> line \<and> line \<le> lineCount w - windowLines w \<longrightarrow>
             m_currentLine (scrollTo line w) = line))
   \<and> (lineCount w < windowLines w \<longrightarrow> m_currentLine (scrollTo line w) = 0)"
    unfolding top by simp
  have wrap: "sint (m_scrollCount (scrollTo line w))
        = sint (m_scrollCount w) + (m_currentLine (scrollTo line w) - m_currentLine w)"
    if "- (2 ^ 31) \<le> sint (m_scrollCount w) + (m_currentLine (scrollTo line w) - m_currentLine w)"
      and "sint (m_scrollCount w) + (m_currentLine (scrollTo line w) - m_currentLine w) < 2 ^ 31"
    unfolding sc [symmetric, THEN sym] using that sc sint_add_in_range by metis
  show ?thesis using top clamp sc wrap by blast
qed

theorem scrollTo_clamps_witness:
  "m_currentLine (scrollTo 500 (exampleWindow (exampleScreen 100 24) 24 90)) = 100
   \<and> sint (m_scrollCount (scrollTo 500 (exampleWindow (exampleScreen 100 24) 24 90))) = 17
   \<and> m_currentLine (scrollTo (- 3) (exampleWindow (exampleScreen 100 24) 24 90)) = 0
   \<and> sint (m_scrollCount (scrollTo (- 3) (exampleWindow (exampleScreen 100 24) 24 90))) = - 83
   \<and> m_currentLine (scrollTo 42 (exampleWindow (exampleScreen 100 24) 24 90)) = 42
   \<and> m_currentLine (scrollTo 42 (exampleWindow (exampleScreen 0 5) 10 90)) = 0
   \<and> sint (m_scrollCount (scrollTo 100
        ((exampleWindow (exampleScreen 100 24) 24 0)\<lparr>m_scrollCount := 2147483647\<rparr>)))
       = - 2147483549"
proof -
  have s: "sint (m_scrollCount (exampleWindow (exampleScreen 100 24) 24 90)) = 7"
    by (simp add: exampleWindow_def)
  have t: "m_currentLine (exampleWindow (exampleScreen 100 24) 24 90) = 90"
    "m_scrollCount (exampleWindow (exampleScreen 100 24) 24 90) = 7"
    "lineCount (exampleWindow (exampleScreen 100 24) 24 90) = 124"
    "windowLines (exampleWindow (exampleScreen 100 24) 24 90) = 24"
    by (simp_all add: exampleWindow_def exampleScreen_def lineCount_def windowLines_def)
  have u: "lineCount (exampleWindow (exampleScreen 0 5) 10 90) = 5"
    "windowLines (exampleWindow (exampleScreen 0 5) 10 90) = 10"
    by (simp_all add: exampleWindow_def exampleScreen_def lineCount_def windowLines_def)
  let ?w = "(exampleWindow (exampleScreen 100 24) 24 0)\<lparr>m_scrollCount := 2147483647\<rparr>"
  have v: "lineCount ?w = 124" "windowLines ?w = 24" "m_currentLine ?w = 0"
    "m_scrollCount ?w = 2147483647"
    by (simp_all add: exampleWindow_def exampleScreen_def lineCount_def windowLines_def)
  show ?thesis
    using scrollTo_clamps [of 500 "exampleWindow (exampleScreen 100 24) 24 90"]
      scrollTo_clamps [of "- 3" "exampleWindow (exampleScreen 100 24) 24 90"]
      scrollTo_clamps [of 42 "exampleWindow (exampleScreen 100 24) 24 90"]
      scrollTo_clamps [of 42 "exampleWindow (exampleScreen 0 5) 10 90"]
      scrollTo_clamps [of 100 ?w]
    unfolding t u v by simp
qed

section \<open>The top line of the window\<close>

text \<open>
  Claim C8. When the window is not taller than the visible lines
  (\<open>height \<le> visibleLineCount\<close>), \<^verbatim>\<open>currentLine()\<close> is the stored top line clamped
  into \<open>[0, visibleLineCount - height]\<close>. When \<open>visibleLineCount < height\<close> it is 0,
  whatever the stored top line is.
\<close>

theorem currentLine_clamps:
  "(windowLines w \<le> visibleLineCount w \<longrightarrow>
      currentLine w = (if m_currentLine w < 0 then 0
                       else if visibleLineCount w - windowLines w < m_currentLine w
                            then visibleLineCount w - windowLines w
                       else m_currentLine w))
   \<and> (visibleLineCount w < windowLines w \<longrightarrow> currentLine w = 0)"
  by (simp add: currentLine_def qBound_def)

theorem currentLine_clamps_witness:
  "currentLine (exampleWindow (exampleScreen 100 24) 24 500) = 100
   \<and> currentLine (exampleWindow (exampleScreen 100 24) 24 (- 1)) = 0
   \<and> currentLine (exampleWindow (exampleScreen 100 24) 24 42) = 42
   \<and> currentLine (exampleWindow (exampleScreen 100 24) 200 42) = 0"
  using currentLine_clamps [of "exampleWindow (exampleScreen 100 24) 24 500"]
    currentLine_clamps [of "exampleWindow (exampleScreen 100 24) 24 (- 1)"]
    currentLine_clamps [of "exampleWindow (exampleScreen 100 24) 24 42"]
    currentLine_clamps [of "exampleWindow (exampleScreen 100 24) 200 42"]
  by (simp add: visibleLineCount_def Folds_count_def lineCount_def windowLines_def
      exampleWindow_def exampleScreen_def newFolds_def)

section \<open>Changing the line count\<close>

text \<open>
  Claim C9, as stated, fails for the visibility bitmap. A table of two lines with the
  collapsed fold \<open>[0, 1]\<close> hides line 1 after \<^verbatim>\<open>updateVisibleLines\<close>; growing the
  table to three lines with \<^verbatim>\<open>setLineCount(3)\<close> makes line 1 visible: the existing bit
  is not preserved.
\<close>

theorem setLineCount_counterexample:
  "bindF (setFold 0 1 True (Folds_removeAll (setLineCount 2 (newFolds False 0)))) updateVisibleLines
     = Inr \<lparr>m_enabled = True, m_foldStarts = [True, False], m_foldEnds = [False, True],
            m_expanded = [False, False], m_filteredLines = [True, False], m_visibleLines = 1\<rparr>
   \<and> isLineVisible \<lparr>m_enabled = True, m_foldStarts = [True, False], m_foldEnds = [False, True],
            m_expanded = [False, False], m_filteredLines = [True, False], m_visibleLines = 1\<rparr> 1
       = Inr False
   \<and> isLineVisible (setLineCount 3 \<lparr>m_enabled = True, m_foldStarts = [True, False],
            m_foldEnds = [False, True], m_expanded = [False, False],
            m_filteredLines = [True, False], m_visibleLines = 1\<rparr>) 1
       = Inr True"
  by code_simp

text \<open>
  Claim C9, amended. \<^verbatim>\<open>setLineCount(n)\<close> changes nothing when \<open>n\<close> is the length of
  the fold-start array. When it grows a table of \<open>m\<close> lines to \<open>n > m\<close> lines, all four
  arrays have \<open>n\<close> bits afterwards; every existing bit of the fold-start, fold-end and
  expanded arrays is preserved and their new positions are clear; the visibility bitmap
  is reset, so that all \<open>n\<close> positions, old and new, are visible; the flag and the
  cached count are unchanged.
\<close>

theorem setLineCount_effect:
  "(length (m_foldStarts f) = n \<longrightarrow> setLineCount n f = f)
   \<and> (sized m f \<and> m < n \<longrightarrow>
        sized n (setLineCount n f)
        \<and> (\<forall>i<m. m_foldStarts (setLineCount n f) ! i = m_foldStarts f ! i
                 \<and> m_foldEnds (setLineCount n f) ! i = m_foldEnds f ! i
                 \<and> m_expanded (setLineCount n f) ! i = m_expanded f ! i)
        \<and> (\<forall>i. m \<le> i \<and> i < n \<longrightarrow>
                 \<not> m_foldStarts (setLineCount n f) ! i
                 \<and> \<not> m_foldEnds (setLineCount n f) ! i
                 \<and> \<not> m_expanded (setLineCount n f) ! i)
        \<and> m_filteredLines (setLineCount n f) = replicate n True
        \<and> m_enabled (setLineCount n f) = m_enabled f
        \<and> m_visibleLines (setLineCount n f) = m_visibleLines f)"
  by (auto simp: setLineCount_def sized_def resize_nth fillSize_def fill_def)

theorem setLineCount_effect_witness:
  "setLineCount 2 \<lparr>m_enabled = True, m_foldStarts = [True, False], m_foldEnds = [False, True],
        m_expanded = [True, False], m_filteredLines = [True, False], m_visibleLines = 1\<rparr>
     = \<lparr>m_enabled = True, m_foldStarts = [True, False], m_foldEnds = [False, True],
        m_expanded = [True, False], m_filteredLines = [True, False], m_visibleLines = 1\<rparr>
   \<and> m_foldStarts (setLineCount 3 \<lparr>m_enabled = True, m_foldStarts = [True, False],
        m_foldEnds = [False, True], m_expanded = [True, False],
        m_filteredLines = [True, False], m_visibleLines = 1\<rparr>) ! 0 = True
   \<and> m_filteredLines (setLineCount 3 \<lparr>m_enabled = True, m_foldStarts = [True, False],
        m_foldEnds = [False, True], m_expanded = [True, False],
        m_filteredLines = [True, False], m_visibleLines = 1\<rparr>) = [True, True, True]"
  using setLineCount_effect [of "\<lparr>m_enabled = True, m_foldStarts = [True, False],
        m_foldEnds = [False, True], m_expanded = [True, False],
        m_filteredLines = [True, False], m_visibleLines = 1\<rparr>" 2 2]
    setLineCount_effect [of "\<lparr>m_enabled = True, m_foldStarts = [True, False],
        m_foldEnds = [False, True], m_expanded = [True, False],
        m_filteredLines = [True, False], m_visibleLines = 1\<rparr>" 3 2]
  by (simp add: sized_def numeral_3_eq_3)

section \<open>The number of visible lines\<close>

text \<open>
  Claim C4. For every fold table the class can be in, after \<^verbatim>\<open>updateVisibleLines()\<close>
  has run \<^verbatim>\<open>Folds::visibleLineCount()\<close> is the number of true bits of the visibility
  bitmap. For every window whose fold table counts no fold
  (\<^verbatim>\<open>Folds::count()\<close> is 0, in particular when no start bit is set),
  \<^verbatim>\<open>ScreenWindow::visibleLineCount()\<close> is \<^verbatim>\<open>lineCount()\<close>.
\<close>

theorem visibleLineCount_counts_bitmap:
  assumes "reachable f" and "updateVisibleLines f = Inr f'"
  shows "Folds_visibleLineCount f' = countTrue (m_filteredLines f')
         \<and> (\<forall>w. Folds_count (m_folds w) = 0 \<longrightarrow> visibleLineCount w = lineCount w)
         \<and> (\<forall>w. True \<notin> set (m_foldStarts (m_folds w)) \<longrightarrow> visibleLineCount w = lineCount w)"
proof -
  have c: "consistent f" using assms(1) by (rule reachable_consistent)
  have 1: "Folds_visibleLineCount f' = countTrue (m_filteredLines f')"
  proof (cases "m_enabled f")
    case True
    then show ?thesis
      using updateVisibleLines_Inr [OF assms(2)] by (auto simp: Folds_visibleLineCount_def)
  next
    case False
    then have nb: "True \<notin> set (m_foldStarts f)" "True \<notin> set (m_foldEnds f)"
      and sz: "sized (length (m_foldStarts f)) f"
      using c by (auto simp: consistent_def)
    show ?thesis
      using assms(2) False unfolding updateVisibleLines_no_bits [OF nb sz]
      by (auto simp: Folds_visibleLineCount_def)
  qed
  have 2: "visibleLineCount w = lineCount w" if "True \<notin> set (m_foldStarts (m_folds w))" for w
  proof -
    have "filter (\<lambda>x. x) (m_foldStarts (m_folds w)) = []"
      using that by (auto simp: filter_empty_conv)
    then show ?thesis by (simp add: visibleLineCount_def Folds_count_def countTrue_def)
  qed
  show ?thesis using 1 2 by (simp add: visibleLineCount_def)
qed

theorem visibleLineCount_counts_bitmap_witness:
  "updateVisibleLines \<lparr>m_enabled = True, m_foldStarts = [True, False],
       m_foldEnds = [False, True], m_expanded = [False, False],
       m_filteredLines = [True, True], m_visibleLines = 0\<rparr>
     = Inr \<lparr>m_enabled = True, m_foldStarts = [True, False], m_foldEnds = [False, True],
         m_expanded = [False, False], m_filteredLines = [True, False], m_visibleLines = 1\<rparr>
   \<and> Folds_visibleLineCount \<lparr>m_enabled = True, m_foldStarts = [True, False],
         m_foldEnds = [False, True], m_expanded = [False, False],
         m_filteredLines = [True, False], m_visibleLines = 1\<rparr> = countTrue [True, False]
   \<and> visibleLineCount (exampleWindow (exampleScreen 100 24) 24 0) = 124"
proof -
  let ?f = "\<lparr>m_enabled = True, m_foldStarts = [True, False],
       m_foldEnds = [False, True], m_expanded = [False, False],
       m_filteredLines = [True, True], m_visibleLines = 0\<rparr>"
  let ?f' = "\<lparr>m_enabled = True, m_foldStarts = [True, False], m_foldEnds = [False, True],
         m_expanded = [False, False], m_filteredLines = [True, False], m_visibleLines = 1\<rparr>"
  have r0: "reachable (Folds_removeAll (setLineCount 2 (newFolds False 0)))"
    unfolding newFolds_def by (intro reachable.by_removeAll reachable.by_setLineCount reachable.initial)
  have sf: "setFold 0 1 True (Folds_removeAll (setLineCount 2 (newFolds False 0))) = Inr ?f"
    by code_simp
  have r: "reachable ?f" by (rule reachable.by_setFold [OF r0 sf])
  have up: "updateVisibleLines ?f = Inr ?f'" by code_simp
  have "Folds_count (m_folds (exampleWindow (exampleScreen 100 24) 24 0)) = 0"
    by (simp add: exampleWindow_def newFolds_def Folds_count_def)
  then show ?thesis
    using visibleLineCount_counts_bitmap [OF r up] up
    by (simp add: lineCount_def exampleWindow_def exampleScreen_def)
qed

section \<open>Clearing the filter\<close>

text \<open>
  Claim C6. Let \<^verbatim>\<open>createFilterFolds\<close> have built the folds of a non-empty pattern.
  Building the folds of the empty pattern afterwards returns and removes every fold:
  no start bit and no end bit is set, \<^verbatim>\<open>Folds::count()\<close> is 0,
  \<^verbatim>\<open>ScreenWindow::visibleLineCount()\<close> equals \<^verbatim>\<open>lineCount()\<close>, and
  \<^verbatim>\<open>isLineVisible\<close> reports every buffer line visible.
\<close>

theorem empty_filter_restores_all_lines:
  assumes "reachable (m_folds w)" and "flt \<noteq> []" and "createFilterFolds flt w = Inr w1"
  shows "\<exists>w2. createFilterFolds [] w1 = Inr w2
           \<and> Folds_count (m_folds w2) = 0
           \<and> True \<notin> set (m_foldStarts (m_folds w2))
           \<and> True \<notin> set (m_foldEnds (m_folds w2))
           \<and> visibleLineCount w2 = lineCount w2
           \<and> lineCount w2 = lineCount w1
           \<and> (\<forall>i. 0 \<le> i \<and> i < lineCount w2 \<longrightarrow> isLineVisible (m_folds w2) i = Inr True)"
proof -
  let ?n = "nat (lineCount w1)"
  let ?w2 = "w1\<lparr>m_filterNeedsUpdate := False,
                m_folds := Folds_removeAll (setLineCount ?n (m_folds w1))\<rparr>"
  have "consistent (m_folds w1)"
    using createFilterFolds_reachable [OF assms(3,1)] by (simp add: reachable_consistent)
  then have sz: "sized ?n (setLineCount ?n (m_folds w1))"
    by (rule consistent_sized_setLineCount)
  have fl: "m_filteredLines (m_folds ?w2) = replicate ?n True"
    using sz by (simp add: Folds_removeAll_def fill_def sized_def)
  have vis: "isLineVisible (m_folds ?w2) i = Inr True" if "0 \<le> i" "i < lineCount ?w2" for i
  proof -
    have "nat i < ?n" using that by (simp add: lineCount_def)
    then show ?thesis
      using that(1) unfolding isLineVisible_def fl by (simp add: testBit_def)
  qed
  have "createFilterFolds [] w1 = Inr ?w2" by (rule createFilterFolds_empty)
  moreover have "Folds_count (m_folds ?w2) = 0" by (simp add: Folds_count_def Folds_removeAll_def)
  moreover have "True \<notin> set (m_foldStarts (m_folds ?w2))" "True \<notin> set (m_foldEnds (m_folds ?w2))"
    by (simp_all add: Folds_removeAll_def fill_def)
  moreover have "visibleLineCount ?w2 = lineCount ?w2"
    by (simp add: visibleLineCount_def Folds_count_def Folds_removeAll_def)
  moreover have "lineCount ?w2 = lineCount w1" by (simp add: lineCount_def)
  ultimately show ?thesis using vis by blast
qed

theorem empty_filter_restores_all_lines_witness:
  "\<exists>w1 w2. createFilterFolds ''foo'' (exampleWindow (tenLines 0) 4 0) = Inr w1
      \<and> Folds_count (m_folds w1) = 2
      \<and> createFilterFolds [] w1 = Inr w2
      \<and> Folds_count (m_folds w2) = 0
      \<and> visibleLineCount w2 = 10
      \<and> isLineVisible (m_folds w2) 3 = Inr True"
proof -
  let ?w1 = "(exampleWindow (tenLines 0) 4 0)
       \<lparr>m_filterNeedsUpdate := False,
        m_folds := \<lparr>m_enabled = True,
          m_foldStarts = [True, False, False, False, False, True, False, False, False, False],
          m_foldEnds = [False, False, False, False, True, False, False, False, True, False],
          m_expanded = [False, False, False, False, False, False, False, False, False, False],
          m_filteredLines = [True, True, True, True, True, True, True, True, True, True],
          m_visibleLines = 0\<rparr>\<rparr>"
  have r: "reachable (m_folds (exampleWindow (tenLines 0) 4 0))"
    by (simp add: exampleWindow_def newFolds_def reachable.initial)
  have ne: "''foo'' \<noteq> []" by simp
  have l: "lineCount ?w1 = 10"
    by (simp add: lineCount_def exampleWindow_def tenLines_def)
  have c: "Folds_count (m_folds ?w1) = 2"
    by (simp add: Folds_count_def countTrue_def)
  from empty_filter_restores_all_lines [OF r ne tenLines_filter] obtain w2 where
    w2: "createFilterFolds [] ?w1 = Inr w2" "Folds_count (m_folds w2) = 0"
      "visibleLineCount w2 = lineCount w2" "lineCount w2 = lineCount ?w1"
      "\<forall>i. 0 \<le> i \<and> i < lineCount w2 \<longrightarrow> isLineVisible (m_folds w2) i = Inr True"
    by blast
  have v: "isLineVisible (m_folds w2) 3 = Inr True" using w2(4,5) l by simp
  have n: "visibleLineCount w2 = 10" using w2(3,4) l by simp
  show ?thesis
    using tenLines_filter c w2(1,2) n v by blast
qed

section \<open>Visibility under folds\<close>

text \<open>
  Claim C1. Let a fold table of \<open>n\<close> lines represent a properly nested list of folds.
  Then \<^verbatim>\<open>updateVisibleLines()\<close> returns, and afterwards \<^verbatim>\<open>isLineVisible\<close> reports
  not visible every line that lies inside a collapsed fold and is not the start line
  of that fold (the lines after its start line up to and including its end line), and
  reports visible every buffer line all of whose enclosing folds are expanded, in
  particular every line that no fold encloses.
\<close>

theorem collapsed_folds_hide_their_lines:
  assumes "properlyNested n F" and "represents n F f"
  shows "\<exists>f'. updateVisibleLines f = Inr f'
           \<and> (\<forall>A\<in>set F. \<not> isExpanded A \<longrightarrow>
                 (\<forall>i. firstLine A < i \<and> i \<le> lastLine A \<longrightarrow>
                      isLineVisible f' (int i) = Inr False))
           \<and> (\<forall>i<n. (\<forall>A\<in>set F. firstLine A \<le> i \<and> i \<le> lastLine A \<longrightarrow> isExpanded A) \<longrightarrow>
                 isLineVisible f' (int i) = Inr True)"
proof -
  from scan_total [OF assms] obtain fl where
    up: "updateVisibleLines f = Inr (f\<lparr>m_filteredLines := fl, m_visibleLines := countTrue fl\<rparr>)"
    and len: "length fl = n" and fl: "\<forall>j<n. fl ! j = (\<not> hiddenAt F j)"
    by blast
  let ?f' = "f\<lparr>m_filteredLines := fl, m_visibleLines := countTrue fl\<rparr>"
  have vis: "isLineVisible ?f' (int i) = Inr (\<not> hiddenAt F i)" if "i < n" for i
    using that len fl by (simp add: isLineVisible_def testBit_def)
  have 1: "isLineVisible ?f' (int i) = Inr False"
    if "A \<in> set F" "\<not> isExpanded A" "firstLine A < i" "i \<le> lastLine A" for A i
  proof -
    have "i < n" using properlyNested_D(1) [OF assms(1) that(1)] that(4) by simp
    moreover have "hiddenAt F i" using that by (auto simp: hiddenAt_iff)
    ultimately show ?thesis using vis by simp
  qed
  have 2: "isLineVisible ?f' (int i) = Inr True"
    if "i < n" "\<forall>A\<in>set F. firstLine A \<le> i \<and> i \<le> lastLine A \<longrightarrow> isExpanded A" for i
  proof -
    have "\<not> hiddenAt F i" using that(2) by (auto simp: hiddenAt_iff)
    then show ?thesis using vis [OF that(1)] by simp
  qed
  show ?thesis using up 1 2 by blast
qed

theorem collapsed_folds_hide_their_lines_witness:
  "updateVisibleLines \<lparr>m_enabled = True,
       m_foldStarts = [False, True, True, False, False, False],
       m_foldEnds = [False, False, False, True, True, False],
       m_expanded = [False, False, True, False, False, False],
       m_filteredLines = [True, True, True, True, True, True], m_visibleLines = 0\<rparr>
     = Inr \<lparr>m_enabled = True,
       m_foldStarts = [False, True, True, False, False, False],
       m_foldEnds = [False, False, False, True, True, False],
       m_expanded = [False, False, True, False, False, False],
       m_filteredLines = [True, True, False, False, False, True], m_visibleLines = 3\<rparr>
   \<and> isLineVisible \<lparr>m_enabled = True,
       m_foldStarts = [False, True, True, False, False, False],
       m_foldEnds = [False, False, False, True, True, False],
       m_expanded = [False, False, True, False, False, False],
       m_filteredLines = [True, True, False, False, False, True], m_visibleLines = 3\<rparr> 3
       = Inr False
   \<and> isLineVisible \<lparr>m_enabled = True,
       m_foldStarts = [False, True, True, False, False, False],
       m_foldEnds = [False, False, False, True, True, False],
       m_expanded = [False, False, True, False, False, False],
       m_filteredLines = [True, True, False, False, False, True], m_visibleLines = 3\<rparr> 5
       = Inr True"
proof -
  let ?F = "[FoldRange 1 4 False, FoldRange 2 3 True]"
  let ?f = "\<lparr>m_enabled = True,
       m_foldStarts = [False, True, True, False, False, False],
       m_foldEnds = [False, False, False, True, True, False],
       m_expanded = [False, False, True, False, False, False],
       m_filteredLines = [True, True, True, True, True, True], m_visibleLines = 0\<rparr>"
  have pn: "properlyNested 6 ?F" by (simp add: properlyNested_def nestedOrApart_def)
  have rep: "represents 6 ?F ?f" by code_simp
  have up: "updateVisibleLines ?f = Inr \<lparr>m_enabled = True,
       m_foldStarts = [False, True, True, False, False, False],
       m_foldEnds = [False, False, False, True, True, False],
       m_expanded = [False, False, True, False, False, False],
       m_filteredLines = [True, True, False, False, False, True], m_visibleLines = 3\<rparr>"
    by code_simp
  from collapsed_folds_hide_their_lines [OF pn rep] obtain f' where
    f': "updateVisibleLines ?f = Inr f'"
    and h: "\<forall>A\<in>set ?F. \<not> isExpanded A \<longrightarrow>
              (\<forall>i. firstLine A < i \<and> i \<le> lastLine A \<longrightarrow> isLineVisible f' (int i) = Inr False)"
    and v: "\<forall>i<6. (\<forall>A\<in>set ?F. firstLine A \<le> i \<and> i \<le> lastLine A \<longrightarrow> isExpanded A) \<longrightarrow>
              isLineVisible f' (int i) = Inr True"
    by blast
  have "FoldRange 1 4 False \<in> set ?F" by simp
  from bspec [OF h this]
  have "\<forall>i. 1 < i \<and> i \<le> 4 \<longrightarrow> isLineVisible f' (int i) = Inr False" by simp
  from spec [OF this, of 3] have 3: "isLineVisible f' 3 = Inr False" by simp
  from spec [OF v, of 5] have 5: "isLineVisible f' 5 = Inr True" by simp
  show ?thesis using f' up 3 5 by simp
qed

text \<open>
  Claim C10. Let a fold table of \<open>n\<close> lines represent a properly nested list of folds,
  and let \<open>A\<close> be a collapsed fold of more than one line such that every other fold
  that encloses it is expanded. Then \<^verbatim>\<open>updateVisibleLines()\<close> returns, and afterwards
  the start line of \<open>A\<close> is visible and its end line is hidden: the loop assigns the
  visibility of a line before it handles the start and end markers of that line.
\<close>

theorem fold_start_visible_end_hidden:
  assumes "properlyNested n F" and "represents n F f"
    and "A \<in> set F" and "\<not> isExpanded A" and "firstLine A < lastLine A"
    and "\<forall>B\<in>set F. B \<noteq> A \<and> firstLine B \<le> firstLine A \<and> lastLine A \<le> lastLine B
           \<longrightarrow> isExpanded B"
  shows "\<exists>f'. updateVisibleLines f = Inr f'
           \<and> isLineVisible f' (int (firstLine A)) = Inr True
           \<and> isLineVisible f' (int (lastLine A)) = Inr False"
proof -
  from scan_total [OF assms(1,2)] obtain fl where
    up: "updateVisibleLines f = Inr (f\<lparr>m_filteredLines := fl, m_visibleLines := countTrue fl\<rparr>)"
    and len: "length fl = n" and fl: "\<forall>j<n. fl ! j = (\<not> hiddenAt F j)"
    by blast
  let ?f' = "f\<lparr>m_filteredLines := fl, m_visibleLines := countTrue fl\<rparr>"
  have vis: "isLineVisible ?f' (int i) = Inr (\<not> hiddenAt F i)" if "i < n" for i
    using that len fl by (simp add: isLineVisible_def testBit_def)
  have inA: "firstLine A < n" "lastLine A < n"
    using properlyNested_D(1) [OF assms(1,3)] by simp_all
  have "hiddenAt F (lastLine A)"
    using assms(3,4,5) by (auto simp: hiddenAt_iff)
  then have e: "isLineVisible ?f' (int (lastLine A)) = Inr False"
    using vis [OF inA(2)] by simp
  have "\<not> hiddenAt F (firstLine A)"
  proof
    assume "hiddenAt F (firstLine A)"
    then obtain B where B: "B \<in> set F" "\<not> isExpanded B" "firstLine B < firstLine A"
      "firstLine A \<le> lastLine B"
      by (auto simp: hiddenAt_iff)
    have "nestedOrApart A B" using properlyNested_D(2) [OF assms(1,3) B(1)] .
    then have "lastLine A \<le> lastLine B" "B \<noteq> A"
      using B(3,4) properlyNested_D(1) [OF assms(1,3)] by (auto simp: nestedOrApart_def)
    then have "isExpanded B" using assms(6) B(1,3) by auto
    then show False using B(2) by simp
  qed
  then have s: "isLineVisible ?f' (int (firstLine A)) = Inr True"
    using vis [OF inA(1)] by simp
  show ?thesis using up s e by blast
qed

theorem fold_start_visible_end_hidden_witness:
  "updateVisibleLines \<lparr>m_enabled = True,
       m_foldStarts = [True, False, False, False, True, False, False],
       m_foldEnds = [False, False, False, False, False, True, True],
       m_expanded = [True, False, False, False, False, False, False],
       m_filteredLines = [True, True, True, True, True, True, True], m_visibleLines = 0\<rparr>
     = Inr \<lparr>m_enabled = True,
       m_foldStarts = [True, False, False, False, True, False, False],
       m_foldEnds = [False, False, False, False, False, True, True],
       m_expanded = [True, False, False, False, False, False, False],
       m_filteredLines = [True, True, True, True, True, False, True], m_visibleLines = 6\<rparr>
   \<and> isLineVisible \<lparr>m_enabled = True,
       m_foldStarts = [True, False, False, False, True, False, False],
       m_foldEnds = [False, False, False, False, False, True, True],
       m_expanded = [True, False, False, False, False, False, False],
       m_filteredLines = [True, True, True, True, True, False, True], m_visibleLines = 6\<rparr> 4
       = Inr True
   \<and> isLineVisible \<lparr>m_enabled = True,
       m_foldStarts = [True, False, False, False, True, False, False],
       m_foldEnds = [False, False, False, False, False, True, True],
       m_expanded = [True, False, False, False, False, False, False],
       m_filteredLines = [True, True, True, True, True, False, True], m_visibleLines = 6\<rparr> 5
       = Inr False"
proof -
  let ?F = "[FoldRange 0 6 True, FoldRange 4 5 False]"
  let ?f = "\<lparr>m_enabled = True,
       m_foldStarts = [True, False, False, False, True, False, False],
       m_foldEnds = [False, False, False, False, False, True, True],
       m_expanded = [True, False, False, False, False, False, False],
       m_filteredLines = [True, True, True, True, True, True, True], m_visibleLines = 0\<rparr>"
  have pn: "properlyNested 7 ?F" by (simp add: properlyNested_def nestedOrApart_def)
  have rep: "represents 7 ?F ?f" by code_simp
  have a: "FoldRange 4 5 False \<in> set ?F" by simp
  have c: "\<not> isExpanded (FoldRange 4 5 False)" by simp
  have l: "firstLine (FoldRange 4 5 False) < lastLine (FoldRange 4 5 False)" by simp
  have o: "\<forall>B\<in>set ?F. B \<noteq> FoldRange 4 5 False
             \<and> firstLine B \<le> firstLine (FoldRange 4 5 False)
             \<and> lastLine (FoldRange 4 5 False) \<le> lastLine B \<longrightarrow> isExpanded B"
    by simp
  have up: "updateVisibleLines ?f = Inr \<lparr>m_enabled = True,
       m_foldStarts = [True, False, False, False, True, False, False],
       m_foldEnds = [False, False, False, False, False, True, True],
       m_expanded = [True, False, False, False, False, False, False],
       m_filteredLines = [True, True, True, True, True, False, True], m_visibleLines = 6\<rparr>"
    by code_simp
  from fold_start_visible_end_hidden [OF pn rep a c l o] obtain f' where
    "updateVisibleLines ?f = Inr f'" "isLineVisible f' (int 4) = Inr True"
    "isLineVisible f' (int 5) = Inr False"
    by auto
  then show ?thesis using up by simp
qed

section \<open>The stack of enclosing folds\<close>

text \<open>
  Claim C3, as stated, fails when a fold is removed whose boundary lines are also
  boundary lines of other folds. On a table of 6 lines the calls
  \<^verbatim>\<open>setFold(0,3,true)\<close>, \<^verbatim>\<open>setFold(4,5,true)\<close>, \<^verbatim>\<open>setFold(0,5,true)\<close>,
  \<^verbatim>\<open>setFold(0,5,false)\<close> have ranges of which any two are identical, disjoint, or one
  inside the other, and each fold removed was created before. Every call passes the
  assertions of \<^verbatim>\<open>setFold\<close>: the third finds the start bit of line 0 and the end bit
  of line 5 both set, and the fourth clears them. The end bit of line 3 is then
  without a start, and the loop of \<^verbatim>\<open>updateVisibleLines\<close> pops the empty stack there.
\<close>

theorem setFold_sequences_counterexample:
  "looselyNestedCalls 6 [(0, 3, True), (4, 5, True), (0, 5, True), (0, 5, False)]
   \<and> setFolds [(0, 3, True), (4, 5, True), (0, 5, True), (0, 5, False)]
        (Folds_removeAll (setLineCount 6 (newFolds False 0)))
       = Inr \<lparr>m_enabled = True,
           m_foldStarts = [False, False, False, False, True, False],
           m_foldEnds = [False, False, False, True, False, False],
           m_expanded = [False, False, False, False, False, False],
           m_filteredLines = [True, True, True, True, True, True], m_visibleLines = 0\<rparr>
   \<and> updateVisibleLines \<lparr>m_enabled = True,
           m_foldStarts = [False, False, False, False, True, False],
           m_foldEnds = [False, False, False, True, False, False],
           m_expanded = [False, False, False, False, False, False],
           m_filteredLines = [True, True, True, True, True, True], m_visibleLines = 0\<rparr>
       = Inl PopEmptyStack"
  by code_simp

text \<open>
  Claim C3, amended. Start from a table of \<open>n\<close> lines without folds (any table the
  class can be in, after \<^verbatim>\<open>setLineCount(n)\<close> and \<^verbatim>\<open>removeAll()\<close>) and run a sequence
  of \<^verbatim>\<open>setFold\<close> calls.

  \<^item> If every call creates a fold (its third argument is true) and passes the assertions
    of \<^verbatim>\<open>setFold\<close>, then, whatever the ranges are, the loop of
    \<^verbatim>\<open>updateVisibleLines\<close> never pops an empty stack and ends with the stack empty,
    and \<^verbatim>\<open>updateVisibleLines\<close> returns.
  \<^item> If the ranges of the calls lie in the buffer and any two of them are identical,
    disjoint or nested without a common boundary line, then every call, whether it
    creates or removes a fold, passes the assertions of \<^verbatim>\<open>setFold\<close>, and again the
    loop never pops an empty stack and ends with the stack empty.

  A pop of the empty stack is the fault \<open>PopEmptyStack\<close> of the loop, and a stack that
  is not empty after the loop fails the final assertion.
\<close>

theorem setFold_sequences_keep_stack_balanced:
  assumes "reachable f0"
  shows "(list_all (\<lambda>(s, e, b). b) calls
          \<and> setFolds calls (Folds_removeAll (setLineCount n f0)) = Inr f \<longrightarrow>
            (\<exists>c fl. visLoop f (length (m_filteredLines f)) 0
                       ([], False, fill True (m_filteredLines f)) = Inr ([], c, fl)
                  \<and> updateVisibleLines f
                       = Inr (f\<lparr>m_filteredLines := fl, m_visibleLines := countTrue fl\<rparr>)))
       \<and> (nestedCalls n calls \<longrightarrow>
            (\<exists>f' c fl. setFolds calls (Folds_removeAll (setLineCount n f0)) = Inr f'
                  \<and> visLoop f' (length (m_filteredLines f')) 0
                       ([], False, fill True (m_filteredLines f')) = Inr ([], c, fl)
                  \<and> updateVisibleLines f'
                       = Inr (f'\<lparr>m_filteredLines := fl, m_visibleLines := countTrue fl\<rparr>)))"
proof (intro conjI impI)
  have c: "consistent f0" using assms by (rule reachable_consistent)
  let ?cleared = "Folds_removeAll (setLineCount n f0)"
  have sz: "sized n ?cleared"
    using c by (intro sized_removeAll consistent_sized_setLineCount)
  {
    assume a: "list_all (\<lambda>(s, e, b). b) calls \<and> setFolds calls ?cleared = Inr f"
    from setFolds_balanced [OF _ _ markersBalanced_cleared [OF c] sz] a
    have "markersBalanced f \<and> sized n f" by blast
    then show "\<exists>c fl. visLoop f (length (m_filteredLines f)) 0
                       ([], False, fill True (m_filteredLines f)) = Inr ([], c, fl)
                  \<and> updateVisibleLines f
                       = Inr (f\<lparr>m_filteredLines := fl, m_visibleLines := countTrue fl\<rparr>)"
      using balanced_scan by blast
  }
  {
    assume a: "nestedCalls n calls"
    have pn0: "properlyNested n []" by (simp add: properlyNested_def)
    have rep0: "represents n [] ?cleared" using c by (rule represents_cleared)
    have r4: "\<forall>c\<in>set calls. 0 \<le> fst (callRange c) \<and> fst (callRange c) \<le> snd (callRange c)
            \<and> snd (callRange c) < int n"
      and r6: "\<forall>c\<in>set calls. \<forall>d\<in>set calls. rangesCompatible (callRange c) (callRange d)"
      using a by (simp_all add: nestedCalls_def list_all_iff)
    from nested_setFolds [OF pn0 rep0 _ r4 _ r6] obtain f' L' where
      f': "setFolds calls ?cleared = Inr f'" and pn: "properlyNested n L'"
      and rep: "represents n L' f'"
      by auto
    from scan_total [OF pn rep] obtain fl where
      up: "updateVisibleLines f' = Inr (f'\<lparr>m_filteredLines := fl, m_visibleLines := countTrue fl\<rparr>)"
      by blast
    from updateVisibleLines_Inr [OF up] obtain c' fl' where
      loop: "visLoop f' (length (m_filteredLines f')) 0
               ([], False, fill True (m_filteredLines f')) = Inr ([], c', fl')"
      and eq: "f'\<lparr>m_filteredLines := fl, m_visibleLines := countTrue fl\<rparr>
               = f'\<lparr>m_filteredLines := fl', m_visibleLines := countTrue fl'\<rparr>"
      by blast
    show "\<exists>f' c fl. setFolds calls ?cleared = Inr f'
                  \<and> visLoop f' (length (m_filteredLines f')) 0
                       ([], False, fill True (m_filteredLines f')) = Inr ([], c, fl)
                  \<and> updateVisibleLines f'
                       = Inr (f'\<lparr>m_filteredLines := fl, m_visibleLines := countTrue fl\<rparr>)"
      using f' loop up eq by metis
  }
qed

theorem setFold_sequences_keep_stack_balanced_witness:
  "setFolds [(0, 3, True), (4, 5, True), (0, 5, True)]
       (Folds_removeAll (setLineCount 6 (newFolds False 0)))
     = Inr \<lparr>m_enabled = True,
         m_foldStarts = [True, False, False, False, True, False],
         m_foldEnds = [False, False, False, True, False, True],
         m_expanded = [False, False, False, False, False, False],
         m_filteredLines = [True, True, True, True, True, True], m_visibleLines = 0\<rparr>
   \<and> (\<exists>fl. updateVisibleLines \<lparr>m_enabled = True,
         m_foldStarts = [True, False, False, False, True, False],
         m_foldEnds = [False, False, False, True, False, True],
         m_expanded = [False, False, False, False, False, False],
         m_filteredLines = [True, True, True, True, True, True], m_visibleLines = 0\<rparr>
       = Inr \<lparr>m_enabled = True,
         m_foldStarts = [True, False, False, False, True, False],
         m_foldEnds = [False, False, False, True, False, True],
         m_expanded = [False, False, False, False, False, False],
         m_filteredLines = fl, m_visibleLines = countTrue fl\<rparr>)
   \<and> nestedCalls 6 [(1, 4, True), (2, 3, True), (2, 3, False), (5, 5, True)]
   \<and> (\<exists>f'. setFolds [(1, 4, True), (2, 3, True), (2, 3, False), (5, 5, True)]
              (Folds_removeAll (setLineCount 6 (newFolds False 0))) = Inr f'
         \<and> (\<exists>fl. updateVisibleLines f'
                   = Inr (f'\<lparr>m_filteredLines := fl, m_visibleLines := countTrue fl\<rparr>)))"
proof -
  let ?fA = "\<lparr>m_enabled = True,
         m_foldStarts = [True, False, False, False, True, False],
         m_foldEnds = [False, False, False, True, False, True],
         m_expanded = [False, False, False, False, False, False],
         m_filteredLines = [True, True, True, True, True, True], m_visibleLines = 0\<rparr>"
  have r: "reachable (newFolds False 0)" by (simp add: newFolds_def reachable.initial)
  have a: "setFolds [(0, 3, True), (4, 5, True), (0, 5, True)]
       (Folds_removeAll (setLineCount 6 (newFolds False 0))) = Inr ?fA"
    by code_simp
  have la: "list_all (\<lambda>(s, e, b). b) [(0, 3, True), (4, 5, True), (0 :: int, 5 :: int, True)]"
    by simp
  have n: "nestedCalls 6 [(1, 4, True), (2, 3, True), (2, 3, False), (5, 5, True)]"
    by (simp add: nestedCalls_def callRange_def rangesCompatible_def)
  have 1: "\<exists>fl. updateVisibleLines ?fA = Inr (?fA\<lparr>m_filteredLines := fl, m_visibleLines := countTrue fl\<rparr>)"
    using setFold_sequences_keep_stack_balanced [OF r,
        of "[(0, 3, True), (4, 5, True), (0, 5, True)]" 6 ?fA] la a
    by blast
  have 2: "\<exists>f'. setFolds [(1, 4, True), (2, 3, True), (2, 3, False), (5, 5, True)]
              (Folds_removeAll (setLineCount 6 (newFolds False 0))) = Inr f'
         \<and> (\<exists>fl. updateVisibleLines f'
                   = Inr (f'\<lparr>m_filteredLines := fl, m_visibleLines := countTrue fl\<rparr>))"
    using setFold_sequences_keep_stack_balanced [OF r,
        of "[(1, 4, True), (2, 3, True), (2, 3, False), (5, 5, True)]" 6] n
    by blast
  show ?thesis using a 1 2 n by simp
qed

section \<open>The filtered window\<close>





end
